theory Spec2Isabelle
  imports Main "HOL-Library.Word"
begin

section \<open>Constants and identifiers\<close>

text \<open>
  Modelled from the spec: the headers that declare the constants and the types
  \<open>PageId\<close>, \<open>Rid\<close>, \<open>RmFileHdr\<close>, \<open>RmPageHdr\<close> and \<open>Page\<close> are not part of the
  sources; they are taken from the data model and the constants of the specification.
  A frame id is an index into the frame array and is kept as a natural number; page
  numbers, slot numbers and counts are the integers of the code, without the 32-bit bound,
  which a page of \<open>PAGE_SIZE\<close> bytes keeps them far from.
\<close>

type_synonym frame_id_t = nat
type_synonym page_id_t = int
type_synonym byte = "8 word"

definition INVALID_PAGE_ID :: page_id_t where
  "INVALID_PAGE_ID = -1"

definition RM_NO_PAGE :: int where
  "RM_NO_PAGE = -1"

definition RM_FILE_HDR_PAGE :: int where
  "RM_FILE_HDR_PAGE = 0"

definition RM_FIRST_RECORD_PAGE :: int where
  "RM_FIRST_RECORD_PAGE = 1"

record PageId =
  fd :: int
  page_no :: page_id_t

record Rid =
  rid_page_no :: int
  slot_no :: int

section \<open>Page images\<close>

text \<open>
  Modelled from the spec: the page view \<open>RmPageHandle\<close> (pointers \<open>page_hdr\<close>,
  \<open>bitmap\<close> and \<open>get_slot(i)\<close> into the frame) is declared in a header that is not part
  of the sources. A page image is the \<open>PAGE_SIZE\<close> bytes of a frame or of a page on
  disk. It is kept as the three regions that the view exposes over it: the page header,
  the slot bitmap and the slots. The regions are disjoint by the layout
  \<open>[RmPageHdr | bitmap | slots]\<close>, so a write through one of them leaves the other two
  as they were. A slot is addressed by slot number and byte offset.
\<close>

record RmPageHdr =
  num_records :: int
  next_free_page_no :: int

record page_image =
  page_hdr :: RmPageHdr
  bitmap :: "nat \<Rightarrow> bool"
  slots :: "nat \<Rightarrow> nat \<Rightarrow> byte"

text \<open>\<open>Page::reset_memory\<close> fills the frame with zero bytes.\<close>

definition zero_page :: page_image where
  "zero_page = \<lparr>page_hdr = \<lparr>num_records = 0, next_free_page_no = 0\<rparr>,
                 bitmap = (\<lambda>_. False), slots = (\<lambda>_ _. 0)\<rparr>"

record RmFileHdr =
  record_size :: int
  num_pages :: int
  num_records_per_page :: int
  first_free_page_no :: int
  bitmap_size :: int

section \<open>Replacer (lru\_replacer.cpp)\<close>

text \<open>
  \<open>LRUlist_\<close> is the list of frames with the most recently unpinned one at the head.
  \<open>LRUhash_\<close> maps a frame to the iterator of its node in \<open>LRUlist_\<close>; the iterator
  stored for a frame is the one of the node pushed by its \<open>unpin\<close>, which is the first
  node holding that frame, so the hash is kept as its key set and erasing through the
  stored iterator is \<open>remove1\<close>.
\<close>

record LRUReplacer =
  LRUlist :: "frame_id_t list"
  LRUhash :: "frame_id_t set"

definition LRUReplacer_init :: LRUReplacer where
  "LRUReplacer_init = \<lparr>LRUlist = [], LRUhash = {}\<rparr>"

definition victim :: "LRUReplacer \<Rightarrow> frame_id_t option \<times> LRUReplacer" where
  "victim r =
     (if LRUlist r = [] then (None, r)
      else (let f = last (LRUlist r)
            in (Some f, r\<lparr>LRUhash := LRUhash r - {f}, LRUlist := butlast (LRUlist r)\<rparr>)))"

definition pin :: "LRUReplacer \<Rightarrow> frame_id_t \<Rightarrow> LRUReplacer" where
  "pin r f =
     (if f \<in> LRUhash r
      then r\<lparr>LRUlist := remove1 f (LRUlist r), LRUhash := LRUhash r - {f}\<rparr>
      else r)"

definition unpin :: "LRUReplacer \<Rightarrow> frame_id_t \<Rightarrow> LRUReplacer" where
  "unpin r f =
     (if f \<in> LRUhash r then r
      else r\<lparr>LRUlist := f # LRUlist r, LRUhash := insert f (LRUhash r)\<rparr>)"

definition Size :: "LRUReplacer \<Rightarrow> nat" where
  "Size r = length (LRUlist r)"

section \<open>Disk Manager\<close>

text \<open>
  Modelled from the spec: the Disk Manager (\<open>read_page\<close>, \<open>write_page\<close>,
  \<open>allocate_page\<close>) is an external collaborator whose code is not part of the sources.
  \<open>read_page\<close> and \<open>write_page\<close> transfer one page image; \<open>allocate_page\<close> extends the
  file by one page and returns its number, or \<open>INVALID_PAGE_ID\<close> on failure. Whether an
  allocation on a file fails is a component of the disk (\<open>alloc_fails\<close>). The record
  layer writes the file header image to page 0 of its file; that image is kept in
  \<open>disk_hdrs\<close>, apart from the data page images.
\<close>

record DiskManager =
  disk_pages :: "PageId \<Rightarrow> page_image"
  disk_hdrs :: "int \<Rightarrow> RmFileHdr option"
  fd2pageno :: "int \<Rightarrow> page_id_t"
  alloc_fails :: "int \<Rightarrow> bool"

definition read_page :: "DiskManager \<Rightarrow> PageId \<Rightarrow> page_image" where
  "read_page d pid = disk_pages d pid"

definition write_page :: "DiskManager \<Rightarrow> PageId \<Rightarrow> page_image \<Rightarrow> DiskManager" where
  "write_page d pid img = d\<lparr>disk_pages := (disk_pages d)(pid := img)\<rparr>"

definition write_hdr :: "DiskManager \<Rightarrow> int \<Rightarrow> RmFileHdr \<Rightarrow> DiskManager" where
  "write_hdr d f h = d\<lparr>disk_hdrs := (disk_hdrs d)(f \<mapsto> h)\<rparr>"

definition allocate_page :: "DiskManager \<Rightarrow> int \<Rightarrow> page_id_t \<times> DiskManager" where
  "allocate_page d f =
     (if alloc_fails d f then (INVALID_PAGE_ID, d)
      else (fd2pageno d f, d\<lparr>fd2pageno := (fd2pageno d)(f := fd2pageno d f + 1)\<rparr>))"

section \<open>Buffer Pool Manager (buffer\_pool\_manager.cpp)\<close>

record Page =
  page_id :: PageId
  data :: page_image
  is_dirty :: bool
  pin_count :: int

text \<open>A \<open>Page*\<close> into \<open>pages_\<close> is the index of its frame; \<open>nullptr\<close> is \<open>None\<close>.\<close>

record BufferPoolManager =
  pages :: "Page list"
  page_table :: "PageId \<rightharpoonup> frame_id_t"
  free_list :: "frame_id_t list"
  replacer :: LRUReplacer
  disk_manager :: DiskManager

definition pool_size :: "BufferPoolManager \<Rightarrow> nat" where
  "pool_size b = length (pages b)"

text \<open>Assignment through a \<open>Page*\<close>: the frame's \<open>Page\<close> object is replaced in the array.\<close>

definition set_page :: "BufferPoolManager \<Rightarrow> frame_id_t \<Rightarrow> (Page \<Rightarrow> Page) \<Rightarrow> BufferPoolManager" where
  "set_page b f g = b\<lparr>pages := (pages b)[f := g (pages b ! f)]\<rparr>"

definition find_victim_page :: "BufferPoolManager \<Rightarrow> frame_id_t option \<times> BufferPoolManager" where
  "find_victim_page b =
     (if free_list b \<noteq> [] then (Some (hd (free_list b)), b\<lparr>free_list := tl (free_list b)\<rparr>)
      else (case victim (replacer b) of
              (Some f, r) \<Rightarrow> (Some f, b\<lparr>replacer := r\<rparr>)
            | (None, r) \<Rightarrow> (None, b)))"

definition update_page :: "BufferPoolManager \<Rightarrow> frame_id_t \<Rightarrow> PageId \<Rightarrow> BufferPoolManager" where
  "update_page b f new_page_id =
     (let old_page_id = page_id (pages b ! f);
          b1 = (if page_no old_page_id \<noteq> INVALID_PAGE_ID
                then (let b0 = (if is_dirty (pages b ! f)
                                then set_page
                                       (b\<lparr>disk_manager :=
                                            write_page (disk_manager b) old_page_id (data (pages b ! f))\<rparr>)
                                       f (\<lambda>p. p\<lparr>is_dirty := False\<rparr>)
                                else b)
                      in b0\<lparr>page_table := (page_table b0)(old_page_id := None)\<rparr>)
                else b)
      in if page_no new_page_id \<noteq> INVALID_PAGE_ID
         then set_page (b1\<lparr>page_table := (page_table b1)(new_page_id \<mapsto> f)\<rparr>) f
                (\<lambda>p. p\<lparr>page_id := new_page_id, data := zero_page\<rparr>)
         else set_page b1 f
                (\<lambda>p. p\<lparr>page_id := new_page_id, pin_count := 0, is_dirty := False,
                        data := zero_page\<rparr>))"

definition fetch_page :: "BufferPoolManager \<Rightarrow> PageId \<Rightarrow> frame_id_t option \<times> BufferPoolManager" where
  "fetch_page b pid =
     (case page_table b pid of
        Some f \<Rightarrow>
          (Some f, (set_page b f (\<lambda>p. p\<lparr>pin_count := pin_count p + 1\<rparr>))
                     \<lparr>replacer := pin (replacer b) f\<rparr>)
      | None \<Rightarrow>
          (case find_victim_page b of
             (None, b1) \<Rightarrow> (None, b1)
           | (Some v, b1) \<Rightarrow>
               (let b2 = update_page b1 v pid;
                    b3 = set_page b2 v (\<lambda>p. p\<lparr>data := read_page (disk_manager b2) pid\<rparr>);
                    b4 = set_page b3 v (\<lambda>p. p\<lparr>pin_count := 1, is_dirty := False\<rparr>)
                in (Some v, b4\<lparr>replacer := pin (replacer b4) v\<rparr>))))"

definition unpin_page :: "BufferPoolManager \<Rightarrow> PageId \<Rightarrow> bool \<Rightarrow> bool \<times> BufferPoolManager" where
  "unpin_page b pid dirty =
     (case page_table b pid of
        None \<Rightarrow> (False, b)
      | Some f \<Rightarrow>
          (if pin_count (pages b ! f) \<le> 0 then (False, b)
           else (let b1 = set_page b f (\<lambda>p. p\<lparr>pin_count := pin_count p - 1\<rparr>);
                     b2 = (if dirty then set_page b1 f (\<lambda>p. p\<lparr>is_dirty := True\<rparr>) else b1);
                     b3 = (if pin_count (pages b2 ! f) = 0
                           then b2\<lparr>replacer := unpin (replacer b2) f\<rparr> else b2)
                 in (True, b3))))"

definition flush_page :: "BufferPoolManager \<Rightarrow> PageId \<Rightarrow> bool \<times> BufferPoolManager" where
  "flush_page b pid =
     (case page_table b pid of
        None \<Rightarrow> (False, b)
      | Some f \<Rightarrow>
          (let p = pages b ! f;
               b1 = b\<lparr>disk_manager := write_page (disk_manager b) (page_id p) (data p)\<rparr>
           in (True, set_page b1 f (\<lambda>p. p\<lparr>is_dirty := False\<rparr>))))"

text \<open>
  \<open>new_page\<close> receives the file in \<open>page_id->fd\<close> and stores the new \<open>PageId\<close> through
  the same pointer; the result carries the frame and that \<open>PageId\<close>.
\<close>

definition new_page :: "BufferPoolManager \<Rightarrow> int \<Rightarrow> (frame_id_t \<times> PageId) option \<times> BufferPoolManager" where
  "new_page b f =
     (case find_victim_page b of
        (None, b1) \<Rightarrow> (None, b1)
      | (Some v, b1) \<Rightarrow>
          (case allocate_page (disk_manager b1) f of
             (new_disk_page_no, d) \<Rightarrow>
               (let b2 = b1\<lparr>disk_manager := d\<rparr>
                in if new_disk_page_no = INVALID_PAGE_ID then (None, b2)
                   else (let new_actual_page_id = \<lparr>fd = f, page_no = new_disk_page_no\<rparr>;
                             b3 = update_page b2 v new_actual_page_id;
                             b4 = set_page b3 v (\<lambda>p. p\<lparr>pin_count := 1, is_dirty := False\<rparr>)
                         in (Some (v, new_actual_page_id),
                             b4\<lparr>replacer := pin (replacer b4) v\<rparr>)))))"

definition delete_page :: "BufferPoolManager \<Rightarrow> PageId \<Rightarrow> bool \<times> BufferPoolManager" where
  "delete_page b pid =
     (case page_table b pid of
        None \<Rightarrow> (True, b)
      | Some f \<Rightarrow>
          (if pin_count (pages b ! f) > 0 then (False, b)
           else (let p = pages b ! f;
                     b1 = (if is_dirty p
                           then set_page
                                  (b\<lparr>disk_manager :=
                                       write_page (disk_manager b) (page_id p) (data p)\<rparr>)
                                  f (\<lambda>p. p\<lparr>is_dirty := False\<rparr>)
                           else b);
                     b2 = b1\<lparr>page_table := (page_table b1)(pid := None)\<rparr>;
                     b3 = set_page b2 f
                            (\<lambda>p. p\<lparr>page_id := (page_id p)\<lparr>page_no := INVALID_PAGE_ID\<rparr>,
                                    pin_count := 0, is_dirty := False, data := zero_page\<rparr>);
                     b4 = b3\<lparr>replacer := pin (replacer b3) f\<rparr>
                 in (True, b4\<lparr>free_list := free_list b4 @ [f]\<rparr>))))"

text \<open>
  \<open>flush_all_pages\<close> walks the entries of the page table. Every entry names a frame of
  the pool, so the walk is over the frames that the page table maps their page to; the
  entries are independent of each other and the order of the walk does not matter.
\<close>

definition flush_frame :: "int \<Rightarrow> BufferPoolManager \<Rightarrow> frame_id_t \<Rightarrow> BufferPoolManager" where
  "flush_frame f b i =
     (let p = pages b ! i
      in if page_table b (page_id p) = Some i \<and> fd (page_id p) = f \<and> is_dirty p
         then set_page (b\<lparr>disk_manager := write_page (disk_manager b) (page_id p) (data p)\<rparr>)
                i (\<lambda>p. p\<lparr>is_dirty := False\<rparr>)
         else b)"

definition flush_all_pages :: "BufferPoolManager \<Rightarrow> int \<Rightarrow> BufferPoolManager" where
  "flush_all_pages b f = foldl (flush_frame f) b [0..<length (pages b)]"

text \<open>
  Modelled from the spec: \<open>mark_dirty\<close> is defined in the header of the pool, which is
  not part of the sources; it sets the dirty flag of a frame.
\<close>

definition mark_dirty :: "BufferPoolManager \<Rightarrow> frame_id_t \<Rightarrow> BufferPoolManager" where
  "mark_dirty b f = set_page b f (\<lambda>p. p\<lparr>is_dirty := True\<rparr>)"

text \<open>
  Modelled from the spec: the constructor of the pool is in the header too. It leaves
  every frame unbound, unpinned and clean, all frames on the free list, and nothing in
  the page table or the replacer.
\<close>

definition fresh_page :: "int \<Rightarrow> Page" where
  "fresh_page f = \<lparr>page_id = \<lparr>fd = f, page_no = INVALID_PAGE_ID\<rparr>, data = zero_page,
                   is_dirty = False, pin_count = 0\<rparr>"

definition BufferPoolManager_init :: "nat \<Rightarrow> DiskManager \<Rightarrow> BufferPoolManager" where
  "BufferPoolManager_init n d =
     \<lparr>pages = replicate n (fresh_page 0), page_table = Map.empty, free_list = [0..<n],
      replacer = LRUReplacer_init, disk_manager = d\<rparr>"

section \<open>Bitmap\<close>

text \<open>
  Modelled from the spec: the Bitmap utility (test, set, reset, next set bit, first unset
  bit over a bit array) is not part of the sources. \<open>next_bit b bm max_n cur\<close> is the
  least position after \<open>cur\<close> and below \<open>max_n\<close> whose bit equals \<open>b\<close>, and \<open>max_n\<close>
  when there is none, which is how its callers test for "not found".
\<close>

definition Bitmap_is_set :: "(nat \<Rightarrow> bool) \<Rightarrow> int \<Rightarrow> bool" where
  "Bitmap_is_set bm pos = bm (nat pos)"

definition Bitmap_set :: "(nat \<Rightarrow> bool) \<Rightarrow> int \<Rightarrow> (nat \<Rightarrow> bool)" where
  "Bitmap_set bm pos = bm(nat pos := True)"

definition Bitmap_reset :: "(nat \<Rightarrow> bool) \<Rightarrow> int \<Rightarrow> (nat \<Rightarrow> bool)" where
  "Bitmap_reset bm pos = bm(nat pos := False)"

definition Bitmap_init :: "(nat \<Rightarrow> bool) \<Rightarrow> int \<Rightarrow> (nat \<Rightarrow> bool)" where
  "Bitmap_init bm n = (\<lambda>_. False)"

definition next_bit :: "bool \<Rightarrow> (nat \<Rightarrow> bool) \<Rightarrow> int \<Rightarrow> int \<Rightarrow> int" where
  "next_bit b bm max_n cur =
     (case List.find (\<lambda>i. bm (nat i) = b) [cur + 1..max_n - 1] of
        None \<Rightarrow> max_n
      | Some i \<Rightarrow> i)"

definition first_bit :: "bool \<Rightarrow> (nat \<Rightarrow> bool) \<Rightarrow> int \<Rightarrow> int" where
  "first_bit b bm max_n = next_bit b bm max_n (-1)"

section \<open>Record File Handle (rm\_file\_handle.cpp)\<close>

datatype error =
  PageNotExistError int
| RecordNotFoundError int int
| RMDBError string

text \<open>
  The file handle holds the file header, the file descriptor and pointers to the shared
  Buffer Pool Manager and Disk Manager. The pool, with the disk inside it, is threaded
  through the handle. An \<open>RmPageHandle\<close> is the frame it views. An exception is an
  \<open>Inl\<close> result next to the state the throwing call leaves behind.
\<close>

record RmFileHandle =
  file_hdr :: RmFileHdr
  fh_fd :: int
  buffer_pool_manager :: BufferPoolManager

definition frame_data :: "RmFileHandle \<Rightarrow> frame_id_t \<Rightarrow> page_image" where
  "frame_data h f = data (pages (buffer_pool_manager h) ! f)"

definition frame_page_id :: "RmFileHandle \<Rightarrow> frame_id_t \<Rightarrow> PageId" where
  "frame_page_id h f = page_id (pages (buffer_pool_manager h) ! f)"

text \<open>A write through the page view: the image of the viewed frame changes.\<close>

definition set_data :: "RmFileHandle \<Rightarrow> frame_id_t \<Rightarrow> (page_image \<Rightarrow> page_image) \<Rightarrow> RmFileHandle" where
  "set_data h f g =
     h\<lparr>buffer_pool_manager := set_page (buffer_pool_manager h) f (\<lambda>p. p\<lparr>data := g (data p)\<rparr>)\<rparr>"

definition rm_mark_dirty :: "RmFileHandle \<Rightarrow> frame_id_t \<Rightarrow> RmFileHandle" where
  "rm_mark_dirty h f = h\<lparr>buffer_pool_manager := mark_dirty (buffer_pool_manager h) f\<rparr>"

text \<open>\<open>buffer_pool_manager_->unpin_page(ph.page->get_page_id(), dirty)\<close>, result ignored.\<close>

definition rm_unpin :: "RmFileHandle \<Rightarrow> frame_id_t \<Rightarrow> bool \<Rightarrow> RmFileHandle" where
  "rm_unpin h f dirty =
     h\<lparr>buffer_pool_manager :=
         snd (unpin_page (buffer_pool_manager h) (frame_page_id h f) dirty)\<rparr>"

text \<open>\<open>memcpy\<close> of \<open>n\<close> bytes from a buffer into a slot, and from a slot into a new buffer.\<close>

definition memcpy_to_slot :: "page_image \<Rightarrow> int \<Rightarrow> byte list \<Rightarrow> nat \<Rightarrow> page_image" where
  "memcpy_to_slot d s buf n =
     d\<lparr>slots := (slots d)(nat s := (\<lambda>j. if j < n then buf ! j else slots d (nat s) j))\<rparr>"

definition memcpy_from_slot :: "page_image \<Rightarrow> int \<Rightarrow> nat \<Rightarrow> byte list" where
  "memcpy_from_slot d s n = map (slots d (nat s)) [0..<n]"

definition fetch_page_handle :: "RmFileHandle \<Rightarrow> int \<Rightarrow> (error + frame_id_t) \<times> RmFileHandle" where
  "fetch_page_handle h pno =
     (if pno \<le> RM_FILE_HDR_PAGE \<or> pno \<ge> num_pages (file_hdr h)
      then (Inl (PageNotExistError pno), h)
      else (case fetch_page (buffer_pool_manager h) \<lparr>fd = fh_fd h, page_no = pno\<rparr> of
              (None, b) \<Rightarrow> (Inl (RMDBError ''Failed to fetch page''), h\<lparr>buffer_pool_manager := b\<rparr>)
            | (Some f, b) \<Rightarrow> (Inr f, h\<lparr>buffer_pool_manager := b\<rparr>)))"

definition create_new_page_handle :: "RmFileHandle \<Rightarrow> (error + frame_id_t) \<times> RmFileHandle" where
  "create_new_page_handle h =
     (case new_page (buffer_pool_manager h) (fh_fd h) of
        (None, b) \<Rightarrow> (Inl (RMDBError ''Failed to create a new page''), h\<lparr>buffer_pool_manager := b\<rparr>)
      | (Some (f, new_pid_out), b) \<Rightarrow>
          (let h1 = h\<lparr>buffer_pool_manager := b\<rparr>;
               h2 = set_data h1 f
                      (\<lambda>d. d\<lparr>page_hdr := (page_hdr d)\<lparr>num_records := 0\<rparr>\<rparr>);
               h3 = set_data h2 f
                      (\<lambda>d. d\<lparr>page_hdr := (page_hdr d)\<lparr>next_free_page_no := RM_NO_PAGE\<rparr>\<rparr>);
               h4 = set_data h3 f
                      (\<lambda>d. d\<lparr>bitmap := Bitmap_init (bitmap d) (num_records_per_page (file_hdr h3))\<rparr>);
               h5 = (if page_no new_pid_out \<ge> num_pages (file_hdr h4)
                     then h4\<lparr>file_hdr := (file_hdr h4)\<lparr>num_pages := page_no new_pid_out + 1\<rparr>\<rparr>
                     else h4)
           in (Inr f, rm_mark_dirty h5 f)))"

definition create_page_handle :: "RmFileHandle \<Rightarrow> (error + frame_id_t) \<times> RmFileHandle" where
  "create_page_handle h =
     (if first_free_page_no (file_hdr h) \<noteq> RM_NO_PAGE
      then fetch_page_handle h (first_free_page_no (file_hdr h))
      else create_new_page_handle h)"

definition release_page_handle :: "RmFileHandle \<Rightarrow> frame_id_t \<Rightarrow> RmFileHandle" where
  "release_page_handle h f =
     (let current_page_no = page_no (frame_page_id h f);
          h1 = set_data h f
                 (\<lambda>d. d\<lparr>page_hdr := (page_hdr d)\<lparr>next_free_page_no := first_free_page_no (file_hdr h)\<rparr>\<rparr>);
          h2 = h1\<lparr>file_hdr := (file_hdr h1)\<lparr>first_free_page_no := current_page_no\<rparr>\<rparr>
      in rm_mark_dirty h2 f)"

definition get_record :: "RmFileHandle \<Rightarrow> Rid \<Rightarrow> (error + byte list) \<times> RmFileHandle" where
  "get_record h rid =
     (case fetch_page_handle h (rid_page_no rid) of
        (Inl e, h1) \<Rightarrow> (Inl e, h1)
      | (Inr ph, h1) \<Rightarrow>
          (if slot_no rid < 0 \<or> slot_no rid \<ge> num_records_per_page (file_hdr h1)
           then (Inl (RMDBError ''Invalid slot number''), rm_unpin h1 ph False)
           else if \<not> Bitmap_is_set (bitmap (frame_data h1 ph)) (slot_no rid)
           then (Inl (RecordNotFoundError (rid_page_no rid) (slot_no rid)), rm_unpin h1 ph False)
           else (Inr (memcpy_from_slot (frame_data h1 ph) (slot_no rid)
                        (nat (record_size (file_hdr h1)))),
                 rm_unpin h1 ph False)))"

definition insert_record :: "RmFileHandle \<Rightarrow> byte list \<Rightarrow> (error + Rid) \<times> RmFileHandle" where
  "insert_record h buf =
     (case create_page_handle h of
        (Inl e, h1) \<Rightarrow> (Inl e, h1)
      | (Inr ph, h1) \<Rightarrow>
          (let slot = first_bit False (bitmap (frame_data h1 ph))
                        (num_records_per_page (file_hdr h1))
           in if slot = num_records_per_page (file_hdr h1)
                 \<or> num_records (page_hdr (frame_data h1 ph)) \<ge> num_records_per_page (file_hdr h1)
              then (Inl (RMDBError ''Failed to find a free slot in a supposedly free page.''),
                    rm_unpin h1 ph False)
              else (let h2 = set_data h1 ph
                               (\<lambda>d. memcpy_to_slot d slot buf (nat (record_size (file_hdr h1))));
                        h3 = set_data h2 ph (\<lambda>d. d\<lparr>bitmap := Bitmap_set (bitmap d) slot\<rparr>);
                        h4 = set_data h3 ph
                               (\<lambda>d. d\<lparr>page_hdr := (page_hdr d)\<lparr>num_records := num_records (page_hdr d) + 1\<rparr>\<rparr>);
                        h5 = rm_mark_dirty h4 ph;
                        h6 = (if num_records (page_hdr (frame_data h5 ph))
                                   = num_records_per_page (file_hdr h5)
                              then (let current_page_no = page_no (frame_page_id h5 ph)
                                    in if first_free_page_no (file_hdr h5) = current_page_no
                                       then (let h' = h5\<lparr>file_hdr := (file_hdr h5)
                                                        \<lparr>first_free_page_no :=
                                                           next_free_page_no (page_hdr (frame_data h5 ph))\<rparr>\<rparr>
                                             in h'\<lparr>buffer_pool_manager :=
                                                    (buffer_pool_manager h')
                                                      \<lparr>disk_manager :=
                                                         write_hdr (disk_manager (buffer_pool_manager h'))
                                                           (fh_fd h') (file_hdr h')\<rparr>\<rparr>)
                                       else h5)
                              else h5);
                        rid = \<lparr>rid_page_no = page_no (frame_page_id h6 ph), slot_no = slot\<rparr>
                    in (Inr rid, rm_unpin h6 ph True))))"

text \<open>The positional \<open>insert_record(rid, buf)\<close>.\<close>

definition insert_record_at :: "RmFileHandle \<Rightarrow> Rid \<Rightarrow> byte list \<Rightarrow> (error + unit) \<times> RmFileHandle" where
  "insert_record_at h rid buf =
     (case fetch_page_handle h (rid_page_no rid) of
        (Inl e, h1) \<Rightarrow> (Inl e, h1)
      | (Inr ph, h1) \<Rightarrow>
          (if slot_no rid < 0 \<or> slot_no rid \<ge> num_records_per_page (file_hdr h1)
           then (Inl (RMDBError ''Invalid slot number for insert''), rm_unpin h1 ph False)
           else (let was_set = Bitmap_is_set (bitmap (frame_data h1 ph)) (slot_no rid);
                     h2 = set_data h1 ph
                            (\<lambda>d. memcpy_to_slot d (slot_no rid) buf (nat (record_size (file_hdr h1))));
                     h3 = (if \<not> was_set
                           then set_data
                                  (set_data h2 ph (\<lambda>d. d\<lparr>bitmap := Bitmap_set (bitmap d) (slot_no rid)\<rparr>))
                                  ph
                                  (\<lambda>d. d\<lparr>page_hdr := (page_hdr d)\<lparr>num_records := num_records (page_hdr d) + 1\<rparr>\<rparr>)
                           else set_data h2 ph (\<lambda>d. d\<lparr>bitmap := Bitmap_set (bitmap d) (slot_no rid)\<rparr>));
                     h4 = rm_mark_dirty h3 ph
                 in (Inr (), rm_unpin h4 ph True))))"

definition delete_record :: "RmFileHandle \<Rightarrow> Rid \<Rightarrow> (error + unit) \<times> RmFileHandle" where
  "delete_record h rid =
     (case fetch_page_handle h (rid_page_no rid) of
        (Inl e, h1) \<Rightarrow> (Inl e, h1)
      | (Inr ph, h1) \<Rightarrow>
          (if slot_no rid < 0 \<or> slot_no rid \<ge> num_records_per_page (file_hdr h1)
           then (Inl (RMDBError ''Invalid slot number for delete''), rm_unpin h1 ph False)
           else if \<not> Bitmap_is_set (bitmap (frame_data h1 ph)) (slot_no rid)
           then (Inl (RecordNotFoundError (rid_page_no rid) (slot_no rid)), rm_unpin h1 ph False)
           else (let was_full = (num_records (page_hdr (frame_data h1 ph))
                                   = num_records_per_page (file_hdr h1));
                     h2 = set_data h1 ph (\<lambda>d. d\<lparr>bitmap := Bitmap_reset (bitmap d) (slot_no rid)\<rparr>);
                     h3 = set_data h2 ph
                            (\<lambda>d. d\<lparr>page_hdr := (page_hdr d)\<lparr>num_records := num_records (page_hdr d) - 1\<rparr>\<rparr>);
                     h4 = rm_mark_dirty h3 ph;
                     h5 = (if was_full \<and> num_records (page_hdr (frame_data h4 ph))
                                           < num_records_per_page (file_hdr h4)
                           then release_page_handle h4 ph else h4)
                 in (Inr (), rm_unpin h5 ph True))))"

definition update_record :: "RmFileHandle \<Rightarrow> Rid \<Rightarrow> byte list \<Rightarrow> (error + unit) \<times> RmFileHandle" where
  "update_record h rid buf =
     (case fetch_page_handle h (rid_page_no rid) of
        (Inl e, h1) \<Rightarrow> (Inl e, h1)
      | (Inr ph, h1) \<Rightarrow>
          (if slot_no rid < 0 \<or> slot_no rid \<ge> num_records_per_page (file_hdr h1)
           then (Inl (RMDBError ''Invalid slot number for update''), rm_unpin h1 ph False)
           else if \<not> Bitmap_is_set (bitmap (frame_data h1 ph)) (slot_no rid)
           then (Inl (RecordNotFoundError (rid_page_no rid) (slot_no rid)), rm_unpin h1 ph False)
           else (let h2 = set_data h1 ph
                            (\<lambda>d. memcpy_to_slot d (slot_no rid) buf (nat (record_size (file_hdr h1))));
                     h3 = rm_mark_dirty h2 ph
                 in (Inr (), rm_unpin h3 ph True))))"

section \<open>Record Scan Cursor (rm\_scan.cpp)\<close>

text \<open>
  The cursor is its \<open>rid_\<close>; the file handle it points to is threaded through, as each
  \<open>next\<close> fetches and unpins pages. The scan is on a file handle: the branches for a
  null handle, which put the cursor in the end state at once, have no counterpart here.
  \<open>next\<close> copies the file header once and loops over the pages; an exception of
  \<open>fetch_page_handle\<close> leaves the loop.
\<close>

definition is_end :: "Rid \<Rightarrow> bool" where
  "is_end r = (rid_page_no r = RM_NO_PAGE)"

function next_loop :: "RmFileHdr \<Rightarrow> RmFileHandle \<Rightarrow> Rid \<Rightarrow> (error + Rid) \<times> RmFileHandle" where
  "next_loop hdr h r =
     (if rid_page_no r < num_pages hdr \<and> rid_page_no r \<ge> RM_FIRST_RECORD_PAGE
      then (case fetch_page_handle h (rid_page_no r) of
              (Inl e, h1) \<Rightarrow> (Inl e, h1)
            | (Inr ph, h1) \<Rightarrow>
                (let next_slot = next_bit True (bitmap (frame_data h1 ph))
                                   (num_records_per_page hdr) (slot_no r)
                 in if next_slot < num_records_per_page hdr
                    then (Inr (r\<lparr>slot_no := next_slot\<rparr>), rm_unpin h1 ph False)
                    else next_loop hdr (rm_unpin h1 ph False)
                           \<lparr>rid_page_no = rid_page_no r + 1, slot_no = -1\<rparr>))
      else (Inr \<lparr>rid_page_no = RM_NO_PAGE, slot_no = -1\<rparr>, h))"
  by pat_completeness auto
termination
  by (relation "measure (\<lambda>(hdr, h, r). nat (num_pages hdr - rid_page_no r))") auto

definition RmScan_next :: "RmFileHandle \<Rightarrow> Rid \<Rightarrow> (error + Rid) \<times> RmFileHandle" where
  "RmScan_next h r = (if is_end r then (Inr r, h) else next_loop (file_hdr h) h r)"

definition RmScan_init :: "RmFileHandle \<Rightarrow> (error + Rid) \<times> RmFileHandle" where
  "RmScan_init h = RmScan_next h \<lparr>rid_page_no = RM_FIRST_RECORD_PAGE, slot_no = -1\<rparr>"

text \<open>
  A full scan: read \<open>rid()\<close> and call \<open>next()\<close> until \<open>is_end()\<close>. The driver is the
  caller's loop; it is given fuel, and \<open>None\<close> means that the fuel ran out before the
  end state. The result is the list of Rids read, the final cursor and the final state.
\<close>

fun scan_from :: "nat \<Rightarrow> RmFileHandle \<Rightarrow> Rid \<Rightarrow> ((error + Rid list \<times> Rid) \<times> RmFileHandle) option" where
  "scan_from 0 h r = (if is_end r then Some (Inr ([], r), h) else None)"
| "scan_from (Suc n) h r =
     (if is_end r then Some (Inr ([], r), h)
      else (case RmScan_next h r of
              (Inl e, h1) \<Rightarrow> Some (Inl e, h1)
            | (Inr r1, h1) \<Rightarrow>
                (case scan_from n h1 r1 of
                   None \<Rightarrow> None
                 | Some (Inl e, h2) \<Rightarrow> Some (Inl e, h2)
                 | Some (Inr (rs, r2), h2) \<Rightarrow> Some (Inr (r # rs, r2), h2))))"

definition full_scan :: "nat \<Rightarrow> RmFileHandle \<Rightarrow> ((error + Rid list \<times> Rid) \<times> RmFileHandle) option" where
  "full_scan n h =
     (case RmScan_init h of
        (Inl e, h1) \<Rightarrow> Some (Inl e, h1)
      | (Inr r, h1) \<Rightarrow> scan_from n h1 r)"

section \<open>Reference model of the Replacer\<close>

text \<open>
  The operations of the Replacer as a caller issues them, and a run of a list of them
  that collects what each returns (\<open>victim\<close> returns a frame or nothing; \<open>pin\<close> and
  \<open>unpin\<close> return nothing).
\<close>

datatype replacer_op = Victim | Pin frame_id_t | Unpin frame_id_t

fun replacer_step :: "LRUReplacer \<Rightarrow> replacer_op \<Rightarrow> frame_id_t option \<times> LRUReplacer" where
  "replacer_step r Victim = victim r"
| "replacer_step r (Pin f) = (None, pin r f)"
| "replacer_step r (Unpin f) = (None, unpin r f)"

fun replacer_run :: "LRUReplacer \<Rightarrow> replacer_op list \<Rightarrow> frame_id_t option list \<times> LRUReplacer" where
  "replacer_run r [] = ([], r)"
| "replacer_run r (x # xs) =
     (case replacer_step r x of
        (out, r1) \<Rightarrow> (case replacer_run r1 xs of (outs, r2) \<Rightarrow> (out # outs, r2)))"

text \<open>
  The reference model follows the words of the specification, not the code. It keeps, for
  every eligible frame, the time of the \<open>unpin\<close> that made it eligible (\<open>now\<close> counts the
  operations issued so far). \<open>unpin\<close> records the frame as eligible at the present time and
  is a no-op if the frame is already eligible; \<open>pin\<close> removes the frame from the eligible
  set and is a no-op if it is absent; \<open>victim\<close> fails when no frame is eligible and
  otherwise removes and returns the eligible frame whose time is the earliest.
\<close>

record lru_spec =
  unpinned_at :: "(frame_id_t \<times> nat) list"
  now :: nat

definition lru_spec_init :: lru_spec where
  "lru_spec_init = \<lparr>unpinned_at = [], now = 0\<rparr>"

definition spec_eligible :: "lru_spec \<Rightarrow> frame_id_t set" where
  "spec_eligible a = fst ` set (unpinned_at a)"

definition spec_unpin :: "lru_spec \<Rightarrow> frame_id_t \<Rightarrow> lru_spec" where
  "spec_unpin a f =
     (if f \<in> spec_eligible a then a
      else a\<lparr>unpinned_at := (f, now a) # unpinned_at a\<rparr>)"

definition spec_pin :: "lru_spec \<Rightarrow> frame_id_t \<Rightarrow> lru_spec" where
  "spec_pin a f = a\<lparr>unpinned_at := filter (\<lambda>e. fst e \<noteq> f) (unpinned_at a)\<rparr>"

definition spec_victim :: "lru_spec \<Rightarrow> frame_id_t option \<times> lru_spec" where
  "spec_victim a =
     (if unpinned_at a = [] then (None, a)
      else (let f = fst (arg_min_list snd (unpinned_at a))
            in (Some f, spec_pin a f)))"

fun spec_step :: "lru_spec \<Rightarrow> replacer_op \<Rightarrow> frame_id_t option \<times> lru_spec" where
  "spec_step a Victim = (case spec_victim a of (out, a1) \<Rightarrow> (out, a1\<lparr>now := Suc (now a1)\<rparr>))"
| "spec_step a (Pin f) = (None, (spec_pin a f)\<lparr>now := Suc (now a)\<rparr>)"
| "spec_step a (Unpin f) = (None, (spec_unpin a f)\<lparr>now := Suc (now a)\<rparr>)"

fun spec_run :: "lru_spec \<Rightarrow> replacer_op list \<Rightarrow> frame_id_t option list \<times> lru_spec" where
  "spec_run a [] = ([], a)"
| "spec_run a (x # xs) =
     (case spec_step a x of
        (out, a1) \<Rightarrow> (case spec_run a1 xs of (outs, a2) \<Rightarrow> (out # outs, a2)))"

text \<open>
  The simulation relation between the Replacer and the reference model: the list holds the
  eligible frames, each once, in the order of their times, latest first.
\<close>

definition lru_sim :: "LRUReplacer \<Rightarrow> lru_spec \<Rightarrow> bool" where
  "lru_sim r a \<longleftrightarrow>
     LRUlist r = map fst (unpinned_at a) \<and> LRUhash r = set (LRUlist r) \<and>
     distinct (LRUlist r) \<and> sorted_wrt (>) (map snd (unpinned_at a)) \<and>
     list_all (\<lambda>e. snd e < now a) (unpinned_at a)"


section \<open>States used in examples\<close>

text \<open>
  A disk on which every page is zero, every file has its header page only (the next page
  number to allocate is 1) and allocation succeeds; and the same disk with allocation
  failing.
\<close>

definition empty_disk :: DiskManager where
  "empty_disk = \<lparr>disk_pages = (\<lambda>_. zero_page), disk_hdrs = Map.empty,
                  fd2pageno = (\<lambda>_. 1), alloc_fails = (\<lambda>_. False)\<rparr>"

definition full_disk :: DiskManager where
  "full_disk = empty_disk\<lparr>alloc_fails := (\<lambda>_. True)\<rparr>"

section \<open>Well-formed pools\<close>

text \<open>
  A frame is bound when its \<open>PageId\<close> names a page. In a well-formed pool the page table
  is the inverse of the binding of the frames, frames on the free list are unbound and
  each is there once, and the Replacer holds bound, unpinned frames, each once, with the
  keys of its hash equal to the elements of its list.
\<close>

definition bound :: "Page \<Rightarrow> bool" where
  "bound p \<longleftrightarrow> page_no (page_id p) \<noteq> INVALID_PAGE_ID"

definition bpm_wf :: "BufferPoolManager \<Rightarrow> bool" where
  "bpm_wf b \<longleftrightarrow>
     (\<forall>pid f. page_table b pid = Some f \<longrightarrow>
        f < length (pages b) \<and> page_id (pages b ! f) = pid \<and> bound (pages b ! f) \<and>
        0 \<le> pin_count (pages b ! f)) \<and>
     (\<forall>f < length (pages b). bound (pages b ! f) \<longrightarrow>
        page_table b (page_id (pages b ! f)) = Some f) \<and>
     (\<forall>f \<in> set (free_list b). f < length (pages b) \<and> \<not> bound (pages b ! f)) \<and>
     distinct (free_list b) \<and>
     LRUhash (replacer b) = set (LRUlist (replacer b)) \<and>
     distinct (LRUlist (replacer b)) \<and>
     (\<forall>f \<in> set (LRUlist (replacer b)).
        f < length (pages b) \<and> bound (pages b ! f) \<and> pin_count (pages b ! f) = 0)"

text \<open>
  A pool is coherent when every cached page whose frame is not dirty has the image that
  is on disk. The content of a page, as the next fetch of it would see it, is the image in
  its frame when it is cached and the image on disk otherwise.
\<close>

definition coherent :: "BufferPoolManager \<Rightarrow> bool" where
  "coherent b \<longleftrightarrow>
     (\<forall>pid f. page_table b pid = Some f \<and> \<not> is_dirty (pages b ! f) \<longrightarrow>
        data (pages b ! f) = disk_pages (disk_manager b) pid)"

definition view :: "BufferPoolManager \<Rightarrow> PageId \<Rightarrow> page_image" where
  "view b pid =
     (case page_table b pid of
        Some f \<Rightarrow> data (pages b ! f)
      | None \<Rightarrow> disk_pages (disk_manager b) pid)"

text \<open>Coherence of every frame but one: the frame a caller holds and is writing to.\<close>

definition coherent_but :: "frame_id_t \<Rightarrow> BufferPoolManager \<Rightarrow> bool" where
  "coherent_but f b \<longleftrightarrow>
     (\<forall>pid g. page_table b pid = Some g \<and> g \<noteq> f \<and> \<not> is_dirty (pages b ! g) \<longrightarrow>
        data (pages b ! g) = disk_pages (disk_manager b) pid)"

section \<open>Well-formed record files\<close>

text \<open>
  The content of page \<open>p\<close> of the file of a handle is what a fetch of the page sees.
\<close>

definition page_of :: "RmFileHandle \<Rightarrow> int \<Rightarrow> page_image" where
  "page_of h p = view (buffer_pool_manager h) \<lparr>fd = fh_fd h, page_no = p\<rparr>"

text \<open>
  The file handle is the only user of its file: the Disk Manager allocates the file's next
  page at \<open>num_pages\<close> (the handle's constructor sets the allocation counter of the file
  from the header it reads), the header page exists, and the pool caches only pages of
  the file that exist.
\<close>

definition rm_base :: "RmFileHandle \<Rightarrow> bool" where
  "rm_base h \<longleftrightarrow>
     bpm_wf (buffer_pool_manager h) \<and>
     1 \<le> num_pages (file_hdr h) \<and>
     fd2pageno (disk_manager (buffer_pool_manager h)) (fh_fd h) = num_pages (file_hdr h) \<and>
     (\<forall>p f. page_table (buffer_pool_manager h) \<lparr>fd = fh_fd h, page_no = p\<rparr> = Some f \<longrightarrow>
        p < num_pages (file_hdr h))"

definition rm_inv :: "RmFileHandle \<Rightarrow> bool" where
  "rm_inv h \<longleftrightarrow> rm_base h \<and> coherent (buffer_pool_manager h)"

text \<open>
  Between the fetch of page \<open>p\<close> into frame \<open>f\<close> and its unpin, the handle holds the
  frame pinned and may have written to it without having marked it dirty yet.
\<close>

definition holding :: "RmFileHandle \<Rightarrow> frame_id_t \<Rightarrow> int \<Rightarrow> bool" where
  "holding h f p \<longleftrightarrow>
     rm_base h \<and> coherent_but f (buffer_pool_manager h) \<and>
     f < length (pages (buffer_pool_manager h)) \<and>
     page_table (buffer_pool_manager h) \<lparr>fd = fh_fd h, page_no = p\<rparr> = Some f \<and>
     0 < pin_count (pages (buffer_pool_manager h) ! f)"

definition frame_dirty :: "RmFileHandle \<Rightarrow> frame_id_t \<Rightarrow> bool" where
  "frame_dirty h f = is_dirty (pages (buffer_pool_manager h) ! f)"

text \<open>The population count of a bitmap restricted to the slots below \<open>n\<close>.\<close>

definition popcount :: "(nat \<Rightarrow> bool) \<Rightarrow> int \<Rightarrow> int" where
  "popcount bm n = int (length (filter bm [0..<nat n]))"

definition count_ok :: "RmFileHdr \<Rightarrow> page_image \<Rightarrow> bool" where
  "count_ok hdr d \<longleftrightarrow>
     num_records (page_hdr d) = popcount (bitmap d) (num_records_per_page hdr)"

definition counts_ok :: "RmFileHandle \<Rightarrow> bool" where
  "counts_ok h \<longleftrightarrow>
     (\<forall>p. RM_FIRST_RECORD_PAGE \<le> p \<and> p < num_pages (file_hdr h) \<longrightarrow>
        count_ok (file_hdr h) (page_of h p))"

text \<open>The record-layer operations that write, as a caller issues them.\<close>

datatype rm_op =
  Insert "byte list"
| InsertAt Rid "byte list"
| Delete Rid
| Update Rid "byte list"

fun rm_exec :: "RmFileHandle \<Rightarrow> rm_op \<Rightarrow> RmFileHandle" where
  "rm_exec h (Insert buf) = snd (insert_record h buf)"
| "rm_exec h (InsertAt rid buf) = snd (insert_record_at h rid buf)"
| "rm_exec h (Delete rid) = snd (delete_record h rid)"
| "rm_exec h (Update rid buf) = snd (update_record h rid buf)"

text \<open>
  A file as its creation leaves it: the header page only, no free page, the given record
  layout, over a fresh pool of \<open>n\<close> frames and a disk whose allocation counter for the
  file is 1.
\<close>

definition new_file_hdr :: "int \<Rightarrow> int \<Rightarrow> int \<Rightarrow> RmFileHdr" where
  "new_file_hdr rs npp bs =
     \<lparr>record_size = rs, num_pages = 1, num_records_per_page = npp,
      first_free_page_no = RM_NO_PAGE, bitmap_size = bs\<rparr>"

definition new_file :: "nat \<Rightarrow> DiskManager \<Rightarrow> int \<Rightarrow> RmFileHdr \<Rightarrow> RmFileHandle" where
  "new_file n d f hdr =
     \<lparr>file_hdr = hdr, fh_fd = f, buffer_pool_manager = BufferPoolManager_init n d\<rparr>"

text \<open>
  A pool is idle when no caller holds a pin: every frame is on the free list or in the
  Replacer. While the handle works on one frame, every other frame is, and the frame has
  the handle's pin only.
\<close>

definition idle :: "RmFileHandle \<Rightarrow> bool" where
  "idle h \<longleftrightarrow>
     (\<forall>g < length (pages (buffer_pool_manager h)).
        g \<in> set (free_list (buffer_pool_manager h)) \<or>
        g \<in> set (LRUlist (replacer (buffer_pool_manager h))))"

definition idle_but :: "frame_id_t \<Rightarrow> RmFileHandle \<Rightarrow> bool" where
  "idle_but f h \<longleftrightarrow>
     (\<forall>g < length (pages (buffer_pool_manager h)). g \<noteq> f \<longrightarrow>
        g \<in> set (free_list (buffer_pool_manager h)) \<or>
        g \<in> set (LRUlist (replacer (buffer_pool_manager h)))) \<and>
     pin_count (pages (buffer_pool_manager h) ! f) = 1"

text \<open>The image of a data page as \<open>create_new_page_handle\<close> initialises it.\<close>

definition empty_data_page :: page_image where
  "empty_data_page =
     \<lparr>page_hdr = \<lparr>num_records = 0, next_free_page_no = RM_NO_PAGE\<rparr>,
      bitmap = (\<lambda>_. False), slots = (\<lambda>_ _. 0)\<rparr>"

text \<open>A page of the file is cached, and cached in a dirty frame.\<close>

definition cached :: "RmFileHandle \<Rightarrow> int \<Rightarrow> bool" where
  "cached h p \<longleftrightarrow>
     page_table (buffer_pool_manager h) \<lparr>fd = fh_fd h, page_no = p\<rparr> \<noteq> None"

definition page_dirty :: "RmFileHandle \<Rightarrow> int \<Rightarrow> bool" where
  "page_dirty h p \<longleftrightarrow>
     (case page_table (buffer_pool_manager h) \<lparr>fd = fh_fd h, page_no = p\<rparr> of
        None \<Rightarrow> False
      | Some f \<Rightarrow> is_dirty (pages (buffer_pool_manager h) ! f))"

text \<open>
  An example file: records of 2 bytes, 4 slots per page, over a pool of one frame.
\<close>

definition example_file :: RmFileHandle where
  "example_file = new_file 1 empty_disk 3 (new_file_hdr 2 4 1)"

text \<open>An example file with one slot per page, so that an insert fills its page.\<close>

definition example_file1 :: RmFileHandle where
  "example_file1 = new_file 1 empty_disk 3 (new_file_hdr 2 1 1)"

text \<open>
  An example file with two slots per page, and the state it reaches when the only data
  page, filled by a positional insert, is released by a delete and then filled again by
  a positional insert: the page is full and is the head of the free-page list.
\<close>

definition example_file2 :: RmFileHandle where
  "example_file2 = new_file 1 empty_disk 3 (new_file_hdr 2 2 1)"

definition full_head_file :: RmFileHandle where
  "full_head_file =
     foldl rm_exec example_file2
       [Insert [1, 2],
        InsertAt \<lparr>rid_page_no = 1, slot_no = 1\<rparr> [3, 4],
        Delete \<lparr>rid_page_no = 1, slot_no = 0\<rparr>,
        InsertAt \<lparr>rid_page_no = 1, slot_no = 0\<rparr> [5, 6]]"

section \<open>The records of a file, in scan order\<close>

text \<open>
  The order of Rids by \<open>(page_no, slot_no)\<close>, the cursor of an exhausted scan, the live
  Rids of page \<open>p\<close> from slot \<open>s\<close> on in slot order, the live Rids of the file in page
  order, and those that follow a cursor.
\<close>

definition rid_less :: "Rid \<Rightarrow> Rid \<Rightarrow> bool" where
  "rid_less a b \<longleftrightarrow>
     rid_page_no a < rid_page_no b \<or>
     (rid_page_no a = rid_page_no b \<and> slot_no a < slot_no b)"

definition scan_end :: Rid where
  "scan_end = \<lparr>rid_page_no = RM_NO_PAGE, slot_no = -1\<rparr>"

definition rids_on :: "RmFileHandle \<Rightarrow> int \<Rightarrow> int \<Rightarrow> Rid list" where
  "rids_on h p s =
     map (\<lambda>i. \<lparr>rid_page_no = p, slot_no = i\<rparr>)
       (filter (\<lambda>i. bitmap (page_of h p) (nat i))
          [s..num_records_per_page (file_hdr h) - 1])"

definition live_rids :: "RmFileHandle \<Rightarrow> Rid list" where
  "live_rids h =
     concat (map (\<lambda>p. rids_on h p 0) [RM_FIRST_RECORD_PAGE..num_pages (file_hdr h) - 1])"

definition rids_after :: "RmFileHandle \<Rightarrow> Rid \<Rightarrow> Rid list" where
  "rids_after h r =
     (if rid_page_no r < num_pages (file_hdr h)
      then rids_on h (rid_page_no r) (slot_no r + 1) @
           concat (map (\<lambda>p. rids_on h p 0) [rid_page_no r + 1..num_pages (file_hdr h) - 1])
      else [])"

text \<open>
  A sequence of \<open>insert_record\<close> calls that all return, with the Rids they return;
  \<open>None\<close> when one of them throws.
\<close>

fun insert_all :: "RmFileHandle \<Rightarrow> byte list list \<Rightarrow> (Rid list \<times> RmFileHandle) option" where
  "insert_all h [] = Some ([], h)"
| "insert_all h (buf # bufs) =
     (case insert_record h buf of
        (Inl e, h1) \<Rightarrow> None
      | (Inr rid, h1) \<Rightarrow>
          (case insert_all h1 bufs of
             None \<Rightarrow> None
           | Some (rids, h2) \<Rightarrow> Some (rid # rids, h2)))"

text \<open>
  A file that a scan can walk: well-formed, with no pin held on the pool, and with a
  pool of at least one frame when there is a data page to fetch.
\<close>

definition scannable :: "RmFileHandle \<Rightarrow> bool" where
  "scannable h \<longleftrightarrow>
     rm_inv h \<and> idle h \<and>
     (1 < num_pages (file_hdr h) \<longrightarrow> pages (buffer_pool_manager h) \<noteq> [])"

section \<open>The Replacer refines its reference model\<close>

lemma arg_min_list_decreasing:
  "xs \<noteq> [] \<Longrightarrow> sorted_wrt (>) (map snd xs) \<Longrightarrow> arg_min_list snd xs = last (xs :: ('a \<times> nat) list)"
proof (induction xs rule: induct_list012)
  case (3 x y zs)
  then have "arg_min_list snd (y # zs) = last (y # zs)" by simp
  moreover have "\<forall>e\<in>set (y # zs). snd e < snd x"
    using "3.prems" by auto
  then have "snd (last (y # zs)) < snd x"
    using last_in_set[of "y # zs"] by blast
  ultimately show ?case by (simp add: Let_def)
qed simp_all

lemma filter_last_distinct:
  "xs \<noteq> [] \<Longrightarrow> distinct (map fst xs) \<Longrightarrow> filter (\<lambda>e. fst e \<noteq> fst (last xs)) xs = butlast xs"
proof (induction xs)
  case (Cons x xs)
  show ?case
  proof (cases "xs = []")
    case False
    have "last xs \<in> set xs" using False by simp
    moreover have "fst x \<notin> fst ` set xs" using Cons.prems by simp
    ultimately have "fst x \<noteq> fst (last xs)" by blast
    with Cons False show ?thesis by simp
  qed simp
qed simp

lemma remove1_map_fst:
  "distinct (map fst xs) \<Longrightarrow> remove1 f (map fst xs) = map fst (filter (\<lambda>e. fst e \<noteq> f) xs)"
proof (induction xs)
  case (Cons x xs)
  then have "fst x \<notin> fst ` set xs" by simp
  then have "filter (\<lambda>e. fst e \<noteq> fst x) xs = xs"
    by (intro filter_True) (auto simp: rev_image_eqI)
  with Cons show ?case by auto
qed simp

lemma lru_sim_step:
  assumes "lru_sim r a"
  shows "fst (replacer_step r x) = fst (spec_step a x) \<and>
         lru_sim (snd (replacer_step r x)) (snd (spec_step a x))"
proof (cases x)
  case Victim
  show ?thesis
  proof (cases "unpinned_at a = []")
    case True
    with assms Victim show ?thesis
      by (simp add: lru_sim_def victim_def spec_victim_def)
  next
    case False
    let ?xs = "unpinned_at a"
    have eq: "LRUlist r = map fst ?xs" and h: "LRUhash r = set (LRUlist r)"
      and dl: "distinct (LRUlist r)" and dx: "distinct (map fst ?xs)"
      and so: "sorted_wrt (>) (map snd ?xs)"
      and la: "list_all (\<lambda>e. snd e < now a) ?xs"
      using assms by (auto simp: lru_sim_def)
    have ne: "LRUlist r \<noteq> []" using eq False by simp
    have am: "arg_min_list snd ?xs = last ?xs"
      using False so by (rule arg_min_list_decreasing)
    have fl: "filter (\<lambda>e. fst e \<noteq> fst (last ?xs)) ?xs = butlast ?xs"
      using False dx by (rule filter_last_distinct)
    have l: "last (LRUlist r) = fst (last ?xs)" "butlast (LRUlist r) = map fst (butlast ?xs)"
      using eq False by (simp_all add: last_map map_butlast)
    have d1: "distinct (butlast (LRUlist r))"
      using dl by (rule distinct_butlast)
    have "LRUlist r = butlast (LRUlist r) @ [last (LRUlist r)]"
      using ne by simp
    then have "distinct (butlast (LRUlist r) @ [last (LRUlist r)])"
      and "set (LRUlist r) = set (butlast (LRUlist r) @ [last (LRUlist r)])"
      using dl by simp_all
    then have d2: "set (butlast (LRUlist r)) = set (LRUlist r) - {last (LRUlist r)}"
      by auto
    have "?xs = butlast ?xs @ [last ?xs]" using False by simp
    then have "sorted_wrt (>) (map snd (butlast ?xs @ [last ?xs]))" using so by simp
    then have s1: "sorted_wrt (>) (map snd (butlast ?xs))"
      by (simp add: sorted_wrt_append)
    have s2: "list_all (\<lambda>e. snd e < Suc (now a)) (butlast ?xs)"
      using la by (auto simp: list_all_iff dest: in_set_butlastD less_SucI)
    note d = d1 d2 and s = s1 s2
    show ?thesis
      using False assms Victim am fl l d s
      by (simp add: victim_def spec_victim_def spec_pin_def Let_def lru_sim_def)
  qed
next
  case (Pin f)
  let ?xs = "unpinned_at a"
  let ?ys = "filter (\<lambda>e. fst e \<noteq> f) ?xs"
  have eq: "LRUlist r = map fst ?xs" and h: "LRUhash r = set (LRUlist r)"
    and dl: "distinct (LRUlist r)" and dx: "distinct (map fst ?xs)"
    and so: "sorted_wrt (>) (map snd ?xs)"
    and la: "list_all (\<lambda>e. snd e < now a) ?xs"
    using assms by (auto simp: lru_sim_def)
  have s1: "sorted_wrt (>) (map snd ?ys)"
    using so by (simp add: sorted_wrt_map sorted_wrt_filter)
  have s2: "list_all (\<lambda>e. snd e < Suc (now a)) ?ys"
    using la by (auto simp: list_all_iff)
  have r1: "remove1 f (LRUlist r) = map fst ?ys"
    using dx eq by (simp add: remove1_map_fst)
  have r2: "set (remove1 f (LRUlist r)) = set (LRUlist r) - {f}"
    using dl by (rule set_remove1_eq)
  have r3: "distinct (remove1 f (LRUlist r))"
    using dl by (rule distinct_remove1)
  have r4: "f \<notin> set (LRUlist r) \<Longrightarrow> remove1 f (LRUlist r) = LRUlist r"
    by (rule remove1_idem)
  show ?thesis
  proof (cases "f \<in> LRUhash r")
    case True
    then show ?thesis
      using Pin h r1 r2 r3 s1 s2 by (simp add: pin_def spec_pin_def lru_sim_def)
  next
    case False
    then show ?thesis
      using Pin h dl r1 r4 s1 s2 by (simp add: pin_def spec_pin_def lru_sim_def)
  qed
next
  case (Unpin f)
  with assms show ?thesis
    by (auto simp: lru_sim_def unpin_def spec_unpin_def spec_eligible_def list_all_iff)
qed

lemma lru_sim_run:
  "lru_sim r a \<Longrightarrow>
     fst (replacer_run r ops) = fst (spec_run a ops) \<and>
     lru_sim (snd (replacer_run r ops)) (snd (spec_run a ops))"
proof (induction ops arbitrary: r a)
  case (Cons x xs)
  from lru_sim_step[OF Cons.prems, of x] Cons.IH[of "snd (replacer_step r x)" "snd (spec_step a x)"]
  show ?case by (simp add: split_beta)
qed simp

lemma lru_sim_init: "lru_sim LRUReplacer_init lru_spec_init"
  by (simp add: lru_sim_def LRUReplacer_init_def lru_spec_init_def)

section \<open>Basic facts about frames\<close>

lemma pages_set_page [simp]: "pages (set_page b f g) = (pages b)[f := g (pages b ! f)]"
  and page_table_set_page [simp]: "page_table (set_page b f g) = page_table b"
  and free_list_set_page [simp]: "free_list (set_page b f g) = free_list b"
  and replacer_set_page [simp]: "replacer (set_page b f g) = replacer b"
  and disk_manager_set_page [simp]: "disk_manager (set_page b f g) = disk_manager b"
  by (simp_all add: set_page_def)

lemma Page_update_all:
  "p\<lparr>page_id := a, data := d, pin_count := c, is_dirty := e\<rparr>
     = \<lparr>page_id = a, data = d, is_dirty = e, pin_count = c\<rparr>"
  by (cases p) simp

section \<open>The operations of the pool on well-formed pools\<close>

lemma find_victim_page_None:
  "find_victim_page b = (None, b1) \<Longrightarrow> b1 = b \<and> free_list b = [] \<and> LRUlist (replacer b) = []"
  by (auto simp: find_victim_page_def victim_def Let_def split: if_splits)

lemma find_victim_page_frame:
  "find_victim_page b = (Some v, b1) \<Longrightarrow>
     pages b1 = pages b \<and> page_table b1 = page_table b \<and> disk_manager b1 = disk_manager b"
  by (auto simp: find_victim_page_def victim_def Let_def split: if_splits)

lemma find_victim_page_Some:
  assumes "bpm_wf b" and "find_victim_page b = (Some v, b1)"
  shows "v < length (pages b) \<and> v \<notin> set (free_list b1) \<and> v \<notin> set (LRUlist (replacer b1)) \<and>
         bpm_wf b1 \<and>
         set (free_list b) \<union> set (LRUlist (replacer b))
           = insert v (set (free_list b1) \<union> set (LRUlist (replacer b1))) \<and>
         (bound (pages b ! v) \<longrightarrow> pin_count (pages b ! v) = 0)"
proof (cases "free_list b")
  case (Cons x xs)
  with assms have *: "v = x" "b1 = b\<lparr>free_list := xs\<rparr>"
    by (auto simp: find_victim_page_def)
  with assms(1) Cons show ?thesis
    by (auto simp: bpm_wf_def)
next
  case Nil
  with assms have ne: "LRUlist (replacer b) \<noteq> []"
    and *: "v = last (LRUlist (replacer b))"
      "b1 = b\<lparr>replacer := (replacer b)\<lparr>LRUhash := LRUhash (replacer b) - {v},
                                        LRUlist := butlast (LRUlist (replacer b))\<rparr>\<rparr>"
    by (auto simp: find_victim_page_def victim_def Let_def split: if_splits)
  let ?l = "LRUlist (replacer b)"
  have d: "distinct ?l" and h: "LRUhash (replacer b) = set ?l"
    using assms(1) by (auto simp: bpm_wf_def)
  have l: "?l = butlast ?l @ [v]" using ne * by simp
  then have "distinct (butlast ?l @ [v])" "set ?l = set (butlast ?l @ [v])"
    using d by simp_all
  then have s: "v \<notin> set (butlast ?l)" "set ?l = insert v (set (butlast ?l))"
    "distinct (butlast ?l)" "set (butlast ?l) = set ?l - {v}"
    by auto
  have vin: "v \<in> set ?l" using ne * by simp
  with assms(1) have 1: "v < length (pages b)"
    and 2: "bound (pages b ! v) \<longrightarrow> pin_count (pages b ! v) = 0"
    by (auto simp: bpm_wf_def)
  have c: "free_list b1 = []" "LRUlist (replacer b1) = butlast ?l"
    "LRUhash (replacer b1) = set ?l - {v}" "pages b1 = pages b" "page_table b1 = page_table b"
    using *(2) Nil h by simp_all
  have 3: "v \<notin> set (free_list b1)" "v \<notin> set (LRUlist (replacer b1))"
    "set (free_list b) \<union> set (LRUlist (replacer b))
         = insert v (set (free_list b1) \<union> set (LRUlist (replacer b1)))"
    using s(1,2) Nil by (simp_all add: c)
  have "\<forall>f \<in> set (butlast ?l). f < length (pages b) \<and> bound (pages b ! f) \<and> pin_count (pages b ! f) = 0"
    using assms(1) s(4) by (simp add: bpm_wf_def)
  with assms(1) s(3,4) have 4: "bpm_wf b1"
    unfolding bpm_wf_def c by simp
  from 1 2 3 4 show ?thesis by blast
qed

lemma fetch_page_hit:
  "page_table b pid = Some f \<Longrightarrow>
     fetch_page b pid =
       (Some f, b\<lparr>pages := (pages b)[f := (pages b ! f)\<lparr>pin_count := pin_count (pages b ! f) + 1\<rparr>],
                  replacer := pin (replacer b) f\<rparr>)"
  by (simp add: fetch_page_def set_page_def)

lemma fetch_page_none:
  "page_table b pid = None \<Longrightarrow> free_list b = [] \<Longrightarrow> LRUlist (replacer b) = [] \<Longrightarrow>
     fetch_page b pid = (None, b)"
  by (simp add: fetch_page_def find_victim_page_def victim_def)

lemma fetch_page_miss:
  assumes "page_no pid \<noteq> INVALID_PAGE_ID" and "page_table b pid = None"
    and "find_victim_page b = (Some v, b1)" and "v < length (pages b)"
  shows "fetch_page b pid =
           (Some v,
            \<lparr>pages = (pages b)[v := \<lparr>page_id = pid,
                        data = read_page
                                 (if bound (pages b ! v) \<and> is_dirty (pages b ! v)
                                  then write_page (disk_manager b) (page_id (pages b ! v))
                                         (data (pages b ! v))
                                  else disk_manager b) pid,
                        is_dirty = False, pin_count = 1\<rparr>],
             page_table = (if bound (pages b ! v)
                           then (page_table b)(page_id (pages b ! v) := None)
                           else page_table b)(pid \<mapsto> v),
             free_list = free_list b1,
             replacer = pin (replacer b1) v,
             disk_manager = (if bound (pages b ! v) \<and> is_dirty (pages b ! v)
                             then write_page (disk_manager b) (page_id (pages b ! v))
                                    (data (pages b ! v))
                             else disk_manager b)\<rparr>)"
  using assms find_victim_page_frame[OF assms(3)]
  by (auto simp: fetch_page_def update_page_def Let_def set_page_def bound_def
      Page_update_all intro!: BufferPoolManager.equality)

lemma pin_wf:
  assumes "LRUhash r = set (LRUlist r)" and "distinct (LRUlist r)"
  shows "LRUhash (pin r f) = set (LRUlist (pin r f)) \<and> distinct (LRUlist (pin r f)) \<and>
         set (LRUlist (pin r f)) = set (LRUlist r) - {f}"
  using assms by (auto simp: pin_def)

lemma pin_absent: "f \<notin> LRUhash r \<Longrightarrow> pin r f = r"
  by (simp add: pin_def)

lemma unpin_wf:
  assumes "LRUhash r = set (LRUlist r)" and "distinct (LRUlist r)"
  shows "LRUhash (unpin r f) = set (LRUlist (unpin r f)) \<and> distinct (LRUlist (unpin r f)) \<and>
         set (LRUlist (unpin r f)) = insert f (set (LRUlist r))"
  using assms by (auto simp: unpin_def)

lemma fetch_page_hit_props:
  assumes wf: "bpm_wf b" and hit: "page_table b pid = Some f"
    and res: "fetch_page b pid = (r, b')"
  shows "r = Some f \<and> bpm_wf b' \<and> (coherent b \<longrightarrow> coherent b') \<and> view b' = view b \<and>
         page_table b' = page_table b \<and> length (pages b') = length (pages b) \<and>
         disk_manager b' = disk_manager b \<and> free_list b' = free_list b \<and>
         f < length (pages b) \<and>
         pages b' = (pages b)[f := (pages b ! f)\<lparr>pin_count := pin_count (pages b ! f) + 1\<rparr>] \<and>
         set (LRUlist (replacer b')) = set (LRUlist (replacer b)) - {f}"
proof -
  from fetch_page_hit[OF hit] res
  have r: "r = Some f"
    and b': "b' = b\<lparr>pages := (pages b)[f := (pages b ! f)\<lparr>pin_count := pin_count (pages b ! f) + 1\<rparr>],
                    replacer := pin (replacer b) f\<rparr>"
    by simp_all
  have fl: "f < length (pages b)" using wf hit by (auto simp: bpm_wf_def)
  have pw: "LRUhash (pin (replacer b) f) = set (LRUlist (pin (replacer b) f))"
    "distinct (LRUlist (pin (replacer b) f))"
    "set (LRUlist (pin (replacer b) f)) = set (LRUlist (replacer b)) - {f}"
    using pin_wf[of "replacer b" f] wf by (auto simp: bpm_wf_def)
  have c: "pages b' = (pages b)[f := (pages b ! f)\<lparr>pin_count := pin_count (pages b ! f) + 1\<rparr>]"
    "page_table b' = page_table b" "free_list b' = free_list b"
    "replacer b' = pin (replacer b) f" "disk_manager b' = disk_manager b"
    using b' by simp_all
  have n: "\<And>g. g < length (pages b) \<Longrightarrow> page_id (pages b' ! g) = page_id (pages b ! g) \<and>
             data (pages b' ! g) = data (pages b ! g) \<and>
             is_dirty (pages b' ! g) = is_dirty (pages b ! g) \<and>
             bound (pages b' ! g) = bound (pages b ! g) \<and>
             pin_count (pages b' ! g) = (if g = f then pin_count (pages b ! g) + 1 else pin_count (pages b ! g))"
    by (simp add: c nth_list_update bound_def)
  have len: "length (pages b') = length (pages b)" by (simp add: c)
  have w: "bpm_wf b'"
    unfolding bpm_wf_def len c(2,3,4) pw(3)
    using wf pw(1,2) n unfolding bpm_wf_def
    by (auto simp: pw(3))
  have co: "coherent b \<longrightarrow> coherent b'"
    unfolding coherent_def c(2,5) using n wf unfolding bpm_wf_def by auto
  have v: "view b' = view b"
    using n wf unfolding bpm_wf_def
    by (auto simp: view_def c(2,5) fun_eq_iff split: option.splits)
  from r w co v c fl pw(3) len show ?thesis by simp
qed

text \<open>
  Rebinding a victim frame: what \<open>update_page\<close> followed by the settings of \<open>fetch_page\<close>
  and \<open>new_page\<close> leaves. The frame \<open>v\<close> is on neither list, the page is not cached, and
  the frame receives the image \<open>img\<close>.
\<close>

lemma rebind_props:
  assumes wf: "bpm_wf b1" and v: "v < length (pages b1)"
    and vf: "v \<notin> set (free_list b1)" and vr: "v \<notin> set (LRUlist (replacer b1))"
    and pid: "page_no pid \<noteq> INVALID_PAGE_ID" and miss: "page_table b1 pid = None"
    and ps: "pages b' = (pages b1)[v := \<lparr>page_id = pid, data = img, is_dirty = dty, pin_count = 1\<rparr>]"
    and pt: "page_table b' = (if bound (pages b1 ! v)
                              then (page_table b1)(page_id (pages b1 ! v) := None)
                              else page_table b1)(pid \<mapsto> v)"
    and fl: "free_list b' = free_list b1"
    and rp: "replacer b' = replacer b1"
    and dm: "disk_pages (disk_manager b') =
               (if bound (pages b1 ! v) \<and> is_dirty (pages b1 ! v)
                then (disk_pages (disk_manager b1))(page_id (pages b1 ! v) := data (pages b1 ! v))
                else disk_pages (disk_manager b1))"
  shows "bpm_wf b'"
    and "coherent b1 \<Longrightarrow> dty \<or> img = disk_pages (disk_manager b') pid \<Longrightarrow> coherent b'"
    and "coherent b1 \<Longrightarrow> q \<noteq> pid \<Longrightarrow> view b' q = view b1 q"
    and "view b' pid = img"
    and "disk_pages (disk_manager b') pid = disk_pages (disk_manager b1) pid"
    and "\<And>q g. page_table b' q = Some g \<Longrightarrow> q = pid \<or> page_table b1 q = Some g"
proof -
  let ?old = "page_id (pages b1 ! v)"
  have A1: "\<And>q f. page_table b1 q = Some f \<Longrightarrow>
              f < length (pages b1) \<and> page_id (pages b1 ! f) = q \<and> bound (pages b1 ! f) \<and>
              0 \<le> pin_count (pages b1 ! f)"
    and A2: "\<And>f. f < length (pages b1) \<Longrightarrow> bound (pages b1 ! f) \<Longrightarrow>
              page_table b1 (page_id (pages b1 ! f)) = Some f"
    and A3: "\<And>f. f \<in> set (free_list b1) \<Longrightarrow> f < length (pages b1) \<and> \<not> bound (pages b1 ! f)"
    and A4: "distinct (free_list b1)" "LRUhash (replacer b1) = set (LRUlist (replacer b1))"
      "distinct (LRUlist (replacer b1))"
    and A5: "\<And>f. f \<in> set (LRUlist (replacer b1)) \<Longrightarrow>
              f < length (pages b1) \<and> bound (pages b1 ! f) \<and> pin_count (pages b1 ! f) = 0"
    using wf unfolding bpm_wf_def by blast+
  have len: "length (pages b') = length (pages b1)" by (simp add: ps)
  have nv: "pages b' ! v = \<lparr>page_id = pid, data = img, is_dirty = dty, pin_count = 1\<rparr>"
    using v by (simp add: ps)
  have no: "\<And>g. g \<noteq> v \<Longrightarrow> pages b' ! g = pages b1 ! g"
    by (simp add: ps)
  have oldpid: "bound (pages b1 ! v) \<Longrightarrow> ?old \<noteq> pid"
    using A2[OF v] miss by auto
  have T1: "page_table b' pid = Some v" by (simp add: pt)
  have T2: "\<And>q f. q \<noteq> pid \<Longrightarrow> page_table b' q = Some f \<Longrightarrow> page_table b1 q = Some f \<and> f \<noteq> v"
  proof -
    fix q f assume q: "q \<noteq> pid" and s: "page_table b' q = Some f"
    then have 1: "page_table b1 q = Some f" and 2: "bound (pages b1 ! v) \<longrightarrow> q \<noteq> ?old"
      by (auto simp: pt split: if_splits)
    have "f \<noteq> v"
    proof
      assume "f = v"
      with A1[OF 1] have "bound (pages b1 ! v)" "?old = q" by auto
      with 2 show False by simp
    qed
    with 1 show "page_table b1 q = Some f \<and> f \<noteq> v" by simp
  qed
  have T3: "\<And>q f. page_table b1 q = Some f \<Longrightarrow> f \<noteq> v \<Longrightarrow> page_table b' q = Some f"
  proof -
    fix q f assume 1: "page_table b1 q = Some f" and 2: "f \<noteq> v"
    have "q \<noteq> pid" using 1 miss by auto
    moreover have "bound (pages b1 ! v) \<Longrightarrow> q \<noteq> ?old"
      using A2[OF v] 1 2 by auto
    ultimately show "page_table b' q = Some f" using 1 by (simp add: pt)
  qed
  have T4: "\<And>q. q \<noteq> pid \<Longrightarrow> page_table b' q = None \<Longrightarrow>
              page_table b1 q = None \<or> (bound (pages b1 ! v) \<and> q = ?old)"
    by (auto simp: pt split: if_splits)
  have bnv: "bound (pages b' ! v)" using pid by (simp add: nv bound_def)
  show "\<And>q g. page_table b' q = Some g \<Longrightarrow> q = pid \<or> page_table b1 q = Some g"
    using T2 by blast
  show W: "bpm_wf b'"
    unfolding bpm_wf_def
  proof (intro conjI allI impI ballI)
    fix q f assume s: "page_table b' q = Some f"
    show "f < length (pages b')" "page_id (pages b' ! f) = q" "bound (pages b' ! f)"
      "0 \<le> pin_count (pages b' ! f)"
    proof -
      show "f < length (pages b')"
        using s T1 T2[of q f] A1[of q f] v len by (cases "q = pid") auto
      show "page_id (pages b' ! f) = q"
        using s T1 T2[of q f] A1[of q f] nv no by (cases "q = pid") auto
      show "bound (pages b' ! f)"
        using s T1 T2[of q f] A1[of q f] bnv no by (cases "q = pid") auto
      show "0 \<le> pin_count (pages b' ! f)"
        using s T1 T2[of q f] A1[of q f] nv no by (cases "q = pid") auto
    qed
  next
    fix f assume f: "f < length (pages b')" and bd: "bound (pages b' ! f)"
    show "page_table b' (page_id (pages b' ! f)) = Some f"
    proof (cases "f = v")
      case True then show ?thesis using nv T1 by simp
    next
      case False
      then show ?thesis using f bd no[of f] A2[of f] T3 len by simp
    qed
  next
    fix f assume f: "f \<in> set (free_list b')"
    then have "f \<noteq> v" using vf fl by auto
    then show "f < length (pages b')" "\<not> bound (pages b' ! f)"
      using A3[of f] f no[of f] len fl by auto
  next
    show "distinct (free_list b')" using A4 fl by simp
    show "LRUhash (replacer b') = set (LRUlist (replacer b'))" using A4 rp by simp
    show "distinct (LRUlist (replacer b'))" using A4 rp by simp
  next
    fix f assume f: "f \<in> set (LRUlist (replacer b'))"
    then have "f \<noteq> v" using vr rp by auto
    then show "f < length (pages b')" "bound (pages b' ! f)" "pin_count (pages b' ! f) = 0"
      using A5[of f] f no[of f] len rp by auto
  qed
  have D1: "\<And>q. (bound (pages b1 ! v) \<longrightarrow> q \<noteq> ?old) \<Longrightarrow>
               disk_pages (disk_manager b') q = disk_pages (disk_manager b1) q"
    by (simp add: dm)
  show DP: "disk_pages (disk_manager b') pid = disk_pages (disk_manager b1) pid"
    using D1[of pid] oldpid by blast
  show "view b' pid = img"
    by (simp add: view_def T1 nv)
  {
    assume co: "coherent b1"
    have C: "\<And>q f. page_table b1 q = Some f \<Longrightarrow> \<not> is_dirty (pages b1 ! f) \<Longrightarrow>
               data (pages b1 ! f) = disk_pages (disk_manager b1) q"
      using co unfolding coherent_def by blast
    {
      assume im: "dty \<or> img = disk_pages (disk_manager b') pid"
      show "coherent b'"
        unfolding coherent_def
      proof (intro allI impI, elim conjE)
        fix q f assume s: "page_table b' q = Some f" and nd: "\<not> is_dirty (pages b' ! f)"
        show "data (pages b' ! f) = disk_pages (disk_manager b') q"
        proof (cases "q = pid")
          case True
          then show ?thesis using s T1 nv nd im by auto
        next
          case False
          from T2[OF False s] have 1: "page_table b1 q = Some f" and 2: "f \<noteq> v" by simp_all
          have "bound (pages b1 ! v) \<longrightarrow> q \<noteq> ?old"
            using A2[OF v] 1 2 by auto
          then show ?thesis using C[OF 1] nd no[OF 2] D1[of q] by simp
        qed
      qed
    }
    {
      assume q: "q \<noteq> pid"
      show "view b' q = view b1 q"
      proof (cases "page_table b' q")
        case (Some f)
        from T2[OF q Some] have 1: "page_table b1 q = Some f" and 2: "f \<noteq> v" by simp_all
        then show ?thesis using Some no[OF 2] by (simp add: view_def)
      next
        case None
        from T4[OF q None] show ?thesis
        proof
          assume n1: "page_table b1 q = None"
          then have "bound (pages b1 ! v) \<longrightarrow> q \<noteq> ?old" using A2[OF v] by auto
          then show ?thesis using None n1 D1[of q] by (simp add: view_def)
        next
          assume o: "bound (pages b1 ! v) \<and> q = ?old"
          then have 1: "page_table b1 q = Some v" using A2[OF v] by simp
          show ?thesis
          proof (cases "is_dirty (pages b1 ! v)")
            case True
            then show ?thesis using None 1 o by (simp add: view_def dm)
          next
            case False
            then show ?thesis using None 1 o C[OF 1] by (simp add: view_def dm)
          qed
        qed
      qed
    }
  }
qed

lemma view_cong:
  "pages b' = pages b \<Longrightarrow> page_table b' = page_table b \<Longrightarrow>
   disk_pages (disk_manager b') = disk_pages (disk_manager b) \<Longrightarrow> view b' = view b"
  by (rule ext) (simp add: view_def split: option.splits)

lemma coherent_cong:
  "pages b' = pages b \<Longrightarrow> page_table b' = page_table b \<Longrightarrow>
   disk_pages (disk_manager b') = disk_pages (disk_manager b) \<Longrightarrow> coherent b' = coherent b"
  by (simp add: coherent_def)

lemma fetch_page_props:
  assumes wf: "bpm_wf b" and co: "coherent b" and pid: "page_no pid \<noteq> INVALID_PAGE_ID"
    and res: "fetch_page b pid = (r, b')"
  shows "bpm_wf b' \<and> coherent b' \<and> view b' = view b \<and> length (pages b') = length (pages b) \<and>
         fd2pageno (disk_manager b') = fd2pageno (disk_manager b) \<and>
         alloc_fails (disk_manager b') = alloc_fails (disk_manager b) \<and>
         disk_hdrs (disk_manager b') = disk_hdrs (disk_manager b) \<and>
         (r = None \<longrightarrow> b' = b \<and> page_table b pid = None \<and> free_list b = [] \<and>
            LRUlist (replacer b) = []) \<and>
         (\<forall>f. r = Some f \<longrightarrow>
            f < length (pages b') \<and> page_table b' pid = Some f \<and>
            page_id (pages b' ! f) = pid \<and> 0 < pin_count (pages b' ! f) \<and>
            data (pages b' ! f) = view b pid \<and>
            f \<notin> set (LRUlist (replacer b')) \<and> f \<notin> set (free_list b') \<and>
            set (free_list b) \<union> set (LRUlist (replacer b))
              \<subseteq> insert f (set (free_list b') \<union> set (LRUlist (replacer b'))) \<and>
            (f \<in> set (free_list b) \<union> set (LRUlist (replacer b)) \<longrightarrow>
               pin_count (pages b' ! f) = 1)) \<and>
         (\<forall>q g. page_table b' q = Some g \<longrightarrow> q = pid \<or> page_table b q = Some g)"
proof (cases "page_table b pid")
  case (Some f)
  from fetch_page_hit_props[OF wf Some res]
  have r: "r = Some f" and w: "bpm_wf b'" and c: "coherent b'" and v: "view b' = view b"
    and pt: "page_table b' = page_table b" and len: "length (pages b') = length (pages b)"
    and dm: "disk_manager b' = disk_manager b" and fl: "free_list b' = free_list b"
    and f: "f < length (pages b)"
    and ps: "pages b' = (pages b)[f := (pages b ! f)\<lparr>pin_count := pin_count (pages b ! f) + 1\<rparr>]"
    and lr: "set (LRUlist (replacer b')) = set (LRUlist (replacer b)) - {f}"
    using co by simp_all
  have A1: "page_id (pages b ! f) = pid" "bound (pages b ! f)" "0 \<le> pin_count (pages b ! f)"
    using wf Some unfolding bpm_wf_def by blast+
  have nf: "f \<notin> set (free_list b)"
    using wf A1(2) unfolding bpm_wf_def by blast
  have p0: "f \<in> set (LRUlist (replacer b)) \<Longrightarrow> pin_count (pages b ! f) = 0"
    using wf unfolding bpm_wf_def by blast
  have pf: "pages b' ! f = (pages b ! f)\<lparr>pin_count := pin_count (pages b ! f) + 1\<rparr>"
    using f by (simp add: ps)
  have "data (pages b' ! f) = view b pid"
    by (simp add: pf view_def Some)
  moreover have "0 < pin_count (pages b' ! f)" using A1(3) by (simp add: pf)
  moreover have "f \<in> set (free_list b) \<union> set (LRUlist (replacer b)) \<longrightarrow> pin_count (pages b' ! f) = 1"
    using nf p0 by (auto simp: pf)
  moreover have "page_id (pages b' ! f) = pid" using A1(1) by (simp add: pf)
  moreover have "set (free_list b) \<union> set (LRUlist (replacer b))
              \<subseteq> insert f (set (free_list b') \<union> set (LRUlist (replacer b')))"
    using lr fl by auto
  ultimately show ?thesis
    using r w c v pt len dm fl f lr nf Some by simp
next
  case None
  show ?thesis
  proof (cases "find_victim_page b")
    case (Pair vo b1)
    show ?thesis
    proof (cases vo)
      case N: None
      from find_victim_page_None[OF Pair[unfolded N]] have "b1 = b" "free_list b = []"
        "LRUlist (replacer b) = []" by simp_all
      moreover from this None res have "r = None" "b' = b"
        by (simp_all add: fetch_page_none)
      ultimately show ?thesis using wf co None by simp
    next
      case (Some v)
      note fv = Pair[unfolded Some]
      from find_victim_page_Some[OF wf fv]
      have v: "v < length (pages b)" and vf: "v \<notin> set (free_list b1)"
        and vr: "v \<notin> set (LRUlist (replacer b1))" and w1: "bpm_wf b1"
        and un: "set (free_list b) \<union> set (LRUlist (replacer b))
                   = insert v (set (free_list b1) \<union> set (LRUlist (replacer b1)))"
        by simp_all
      from find_victim_page_frame[OF fv]
      have e: "pages b1 = pages b" "page_table b1 = page_table b" "disk_manager b1 = disk_manager b"
        by simp_all
      let ?d = "if bound (pages b ! v) \<and> is_dirty (pages b ! v)
                then write_page (disk_manager b) (page_id (pages b ! v)) (data (pages b ! v))
                else disk_manager b"
      from fetch_page_miss[OF pid None fv v] res
      have r: "r = Some v"
        and b': "b' = \<lparr>pages = (pages b)[v := \<lparr>page_id = pid, data = read_page ?d pid,
                                                is_dirty = False, pin_count = 1\<rparr>],
                       page_table = (if bound (pages b ! v)
                                     then (page_table b)(page_id (pages b ! v) := None)
                                     else page_table b)(pid \<mapsto> v),
                       free_list = free_list b1,
                       replacer = pin (replacer b1) v,
                       disk_manager = ?d\<rparr>"
        by simp_all
      have hv: "v \<notin> LRUhash (replacer b1)" using w1 vr unfolding bpm_wf_def by simp
      have c: "pages b' = (pages b1)[v := \<lparr>page_id = pid, data = read_page ?d pid,
                                            is_dirty = False, pin_count = 1\<rparr>]"
        "page_table b' = (if bound (pages b1 ! v)
                          then (page_table b1)(page_id (pages b1 ! v) := None)
                          else page_table b1)(pid \<mapsto> v)"
        "free_list b' = free_list b1" "replacer b' = replacer b1"
        "disk_pages (disk_manager b') =
           (if bound (pages b1 ! v) \<and> is_dirty (pages b1 ! v)
            then (disk_pages (disk_manager b1))(page_id (pages b1 ! v) := data (pages b1 ! v))
            else disk_pages (disk_manager b1))"
        "disk_manager b' = ?d"
        by (simp_all add: b' e pin_absent[OF hv] write_page_def)
      have co1: "coherent b1" using co coherent_cong[OF e(1,2)] e(3) by simp
      have v1: "view b1 = view b" using view_cong[OF e(1,2)] e(3) by simp
      have v': "v < length (pages b1)" and m1: "page_table b1 pid = None"
        using v None e by simp_all
      note rb = rebind_props[OF w1 v' vf vr pid m1 c(1,2,3,4,5)]
      have img: "read_page ?d pid = disk_pages (disk_manager b') pid"
        by (simp add: read_page_def c(6))
      have W: "bpm_wf b'" by (rule rb(1))
      have C: "coherent b'" using rb(2)[OF co1] img by simp
      have V1: "view b' pid = view b pid"
        using rb(4) rb(5) img None e by (simp add: view_def)
      have V: "view b' = view b"
      proof
        fix q show "view b' q = view b q"
          using rb(3)[OF co1, of q] V1 v1 by (cases "q = pid") simp_all
      qed
      have len: "length (pages b') = length (pages b)" by (simp add: c(1) e)
      have dsk: "fd2pageno (disk_manager b') = fd2pageno (disk_manager b)"
        "alloc_fails (disk_manager b') = alloc_fails (disk_manager b)"
        "disk_hdrs (disk_manager b') = disk_hdrs (disk_manager b)"
        by (simp_all add: c(6) write_page_def)
      have nv: "pages b' ! v = \<lparr>page_id = pid, data = read_page ?d pid,
                                 is_dirty = False, pin_count = 1\<rparr>"
        using v' by (simp add: c(1))
      have dv: "data (pages b' ! v) = view b pid"
        using V1 by (simp add: view_def c(2))
      have "set (free_list b) \<union> set (LRUlist (replacer b))
              \<subseteq> insert v (set (free_list b') \<union> set (LRUlist (replacer b')))"
        using un c(3,4) by simp
      moreover have "\<forall>q g. page_table b' q = Some g \<longrightarrow> q = pid \<or> page_table b q = Some g"
        using rb(6) e(2) by auto
      ultimately show ?thesis
        using r W C V len dsk nv dv vf vr c(2,3,4) v by simp
    qed
  qed
qed


lemma unpin_page_props:
  assumes wf: "bpm_wf b" and res: "unpin_page b pid dirty = (ok, b')"
  shows "bpm_wf b' \<and> (coherent b \<longrightarrow> coherent b') \<and> view b' = view b \<and>
         page_table b' = page_table b \<and> length (pages b') = length (pages b) \<and>
         disk_manager b' = disk_manager b \<and> free_list b' = free_list b \<and>
         set (LRUlist (replacer b)) \<subseteq> set (LRUlist (replacer b')) \<and>
         (\<forall>g. data (pages b' ! g) = data (pages b ! g) \<and>
              page_id (pages b' ! g) = page_id (pages b ! g)) \<and>
         (\<forall>f. page_table b pid = Some f \<and> 0 < pin_count (pages b ! f) \<longrightarrow>
              ok \<and> pin_count (pages b' ! f) = pin_count (pages b ! f) - 1 \<and>
              (dirty \<or> is_dirty (pages b ! f) \<longrightarrow> is_dirty (pages b' ! f)) \<and>
              (\<forall>g. g \<noteq> f \<longrightarrow> pages b' ! g = pages b ! g) \<and>
              (pin_count (pages b ! f) = 1 \<longrightarrow> f \<in> set (LRUlist (replacer b'))))"
proof (cases "\<exists>f. page_table b pid = Some f \<and> 0 < pin_count (pages b ! f)")
  case False
  then have "b' = b" "\<not> ok" using res
    by (auto simp: unpin_page_def split: option.splits if_splits)
  then show ?thesis using wf False by auto
next
  case True
  then obtain f where hit: "page_table b pid = Some f" and pc: "0 < pin_count (pages b ! f)"
    by blast
  let ?p = "(pages b ! f)\<lparr>pin_count := pin_count (pages b ! f) - 1,
                            is_dirty := is_dirty (pages b ! f) \<or> dirty\<rparr>"
  have A1: "f < length (pages b)" "page_id (pages b ! f) = pid" "bound (pages b ! f)"
    using wf hit unfolding bpm_wf_def by blast+
  have nl: "f \<notin> set (LRUlist (replacer b))"
    using wf pc unfolding bpm_wf_def by force
  have R: "LRUhash (replacer b) = set (LRUlist (replacer b))" "distinct (LRUlist (replacer b))"
    using wf unfolding bpm_wf_def by blast+
  from hit pc res A1(1) have ok: "ok"
    and c: "pages b' = (pages b)[f := ?p]" "page_table b' = page_table b"
      "free_list b' = free_list b" "disk_manager b' = disk_manager b"
      "replacer b' = (if pin_count (pages b ! f) - 1 = 0 then unpin (replacer b) f else replacer b)"
    by (auto simp: unpin_page_def Let_def)
  have len: "length (pages b') = length (pages b)" by (simp add: c)
  have nf: "pages b' ! f = ?p" using A1(1) by (simp add: c)
  have no: "\<And>g. g \<noteq> f \<Longrightarrow> pages b' ! g = pages b ! g" by (simp add: c)
  have same: "\<And>g. data (pages b' ! g) = data (pages b ! g) \<and>
                   page_id (pages b' ! g) = page_id (pages b ! g) \<and>
                   bound (pages b' ! g) = bound (pages b ! g) \<and>
                   (is_dirty (pages b ! g) \<longrightarrow> is_dirty (pages b' ! g))"
  proof -
    fix g show "data (pages b' ! g) = data (pages b ! g) \<and>
                   page_id (pages b' ! g) = page_id (pages b ! g) \<and>
                   bound (pages b' ! g) = bound (pages b ! g) \<and>
                   (is_dirty (pages b ! g) \<longrightarrow> is_dirty (pages b' ! g))"
      using nf no[of g] by (cases "g = f") (simp_all add: bound_def)
  qed
  have pins: "\<And>g. pin_count (pages b' ! g) = (if g = f then pin_count (pages b ! f) - 1
                                                 else pin_count (pages b ! g))"
    using nf no by simp
  have U: "LRUhash (replacer b') = set (LRUlist (replacer b'))" "distinct (LRUlist (replacer b'))"
    "set (LRUlist (replacer b')) = (if pin_count (pages b ! f) = 1
                                     then insert f (set (LRUlist (replacer b)))
                                     else set (LRUlist (replacer b)))"
    using unpin_wf[OF R, of f] R by (auto simp: c(5))
  have W: "bpm_wf b'"
    unfolding bpm_wf_def
  proof (intro conjI allI impI ballI)
    fix q g assume "page_table b' q = Some g"
    then have 1: "page_table b q = Some g" by (simp add: c)
    then have 2: "g < length (pages b)" "page_id (pages b ! g) = q" "bound (pages b ! g)"
      "0 \<le> pin_count (pages b ! g)"
      using wf unfolding bpm_wf_def by blast+
    show "g < length (pages b')" "page_id (pages b' ! g) = q" "bound (pages b' ! g)"
      "0 \<le> pin_count (pages b' ! g)"
      using 2 same[of g] pins[of g] pc len by auto
  next
    fix g assume "g < length (pages b')" "bound (pages b' ! g)"
    then have "g < length (pages b)" "bound (pages b ! g)" using len same[of g] by simp_all
    then have "page_table b (page_id (pages b ! g)) = Some g"
      using wf unfolding bpm_wf_def by blast
    then show "page_table b' (page_id (pages b' ! g)) = Some g"
      using same[of g] c(2) by simp
  next
    fix g assume "g \<in> set (free_list b')"
    then have "g < length (pages b) \<and> \<not> bound (pages b ! g)"
      using wf c(3) unfolding bpm_wf_def by simp
    then show "g < length (pages b')" "\<not> bound (pages b' ! g)"
      using len same[of g] by simp_all
  next
    show "distinct (free_list b')" using wf c(3) unfolding bpm_wf_def by simp
    show "LRUhash (replacer b') = set (LRUlist (replacer b'))" by (rule U(1))
    show "distinct (LRUlist (replacer b'))" by (rule U(2))
  next
    fix g assume g: "g \<in> set (LRUlist (replacer b'))"
    show "g < length (pages b')" "bound (pages b' ! g)" "pin_count (pages b' ! g) = 0"
    proof -
      have "g < length (pages b') \<and> bound (pages b' ! g) \<and> pin_count (pages b' ! g) = 0"
      proof (cases "g = f")
        case True
        then have "pin_count (pages b ! f) = 1" using g U(3) nl by (auto split: if_splits)
        then show ?thesis using True A1 len same[of f] pins[of f] by simp
      next
        case False
        then have "g \<in> set (LRUlist (replacer b))" using g U(3) by (auto split: if_splits)
        then have "g < length (pages b) \<and> bound (pages b ! g) \<and> pin_count (pages b ! g) = 0"
          using wf unfolding bpm_wf_def by blast
        then show ?thesis using False len same[of g] pins[of g] by simp
      qed
      then show "g < length (pages b')" "bound (pages b' ! g)" "pin_count (pages b' ! g) = 0"
        by simp_all
    qed
  qed
  have C: "coherent b \<longrightarrow> coherent b'"
  proof
    assume co: "coherent b"
    show "coherent b'"
      unfolding coherent_def
    proof (intro allI impI, elim conjE)
      fix q g assume "page_table b' q = Some g" and nd: "\<not> is_dirty (pages b' ! g)"
      then have 1: "page_table b q = Some g" by (simp add: c)
      have "\<not> is_dirty (pages b ! g)" using nd same[of g] by blast
      with co 1 have "data (pages b ! g) = disk_pages (disk_manager b) q"
        unfolding coherent_def by blast
      then show "data (pages b' ! g) = disk_pages (disk_manager b') q"
        using same[of g] c(4) by simp
    qed
  qed
  have V: "view b' = view b"
    by (rule ext) (simp add: view_def c(2,4) same split: option.splits)
  have "\<forall>f'. page_table b pid = Some f' \<and> 0 < pin_count (pages b ! f') \<longrightarrow>
              ok \<and> pin_count (pages b' ! f') = pin_count (pages b ! f') - 1 \<and>
              (dirty \<or> is_dirty (pages b ! f') \<longrightarrow> is_dirty (pages b' ! f')) \<and>
              (\<forall>g. g \<noteq> f' \<longrightarrow> pages b' ! g = pages b ! g) \<and>
              (pin_count (pages b ! f') = 1 \<longrightarrow> f' \<in> set (LRUlist (replacer b')))"
    using hit ok nf no U(3) by auto
  moreover have "set (LRUlist (replacer b)) \<subseteq> set (LRUlist (replacer b'))"
    using U(3) by auto
  ultimately show ?thesis using W C V c(2,3,4) len same by blast
qed

lemma bpm_wf_transfer:
  assumes wf: "bpm_wf b" and pt: "page_table b' = page_table b"
    and fl: "free_list b' = free_list b" and rp: "replacer b' = replacer b"
    and len: "length (pages b') = length (pages b)"
    and same: "\<And>i. i < length (pages b) \<Longrightarrow>
                 page_id (pages b' ! i) = page_id (pages b ! i) \<and>
                 pin_count (pages b' ! i) = pin_count (pages b ! i)"
  shows "bpm_wf b'"
proof -
  have bd: "\<And>i. i < length (pages b) \<Longrightarrow> bound (pages b' ! i) = bound (pages b ! i)"
    using same by (simp add: bound_def)
  show ?thesis
    unfolding bpm_wf_def
  proof (intro conjI allI impI ballI)
    fix q g assume "page_table b' q = Some g"
    then have 1: "page_table b q = Some g" by (simp add: pt)
    then have 2: "g < length (pages b)" "page_id (pages b ! g) = q" "bound (pages b ! g)"
      "0 \<le> pin_count (pages b ! g)"
      using wf unfolding bpm_wf_def by blast+
    show "g < length (pages b')" "page_id (pages b' ! g) = q" "bound (pages b' ! g)"
      "0 \<le> pin_count (pages b' ! g)"
      using 2 same[of g] bd[of g] len by auto
  next
    fix g assume "g < length (pages b')" "bound (pages b' ! g)"
    then have "g < length (pages b)" "bound (pages b ! g)" using len bd[of g] by simp_all
    then have "page_table b (page_id (pages b ! g)) = Some g"
      using wf unfolding bpm_wf_def by blast
    then show "page_table b' (page_id (pages b' ! g)) = Some g"
      using same[of g] pt \<open>g < length (pages b)\<close> by simp
  next
    fix g assume "g \<in> set (free_list b')"
    then have "g < length (pages b) \<and> \<not> bound (pages b ! g)"
      using wf fl unfolding bpm_wf_def by simp
    then show "g < length (pages b')" "\<not> bound (pages b' ! g)"
      using len bd[of g] by simp_all
  next
    show "distinct (free_list b')" using wf fl unfolding bpm_wf_def by simp
    show "LRUhash (replacer b') = set (LRUlist (replacer b'))"
      using wf rp unfolding bpm_wf_def by simp
    show "distinct (LRUlist (replacer b'))" using wf rp unfolding bpm_wf_def by simp
  next
    fix g assume "g \<in> set (LRUlist (replacer b'))"
    then have "g < length (pages b) \<and> bound (pages b ! g) \<and> pin_count (pages b ! g) = 0"
      using wf rp unfolding bpm_wf_def by simp
    then show "g < length (pages b')" "bound (pages b' ! g)" "pin_count (pages b' ! g) = 0"
      using len bd[of g] same[of g] by simp_all
  qed
qed

lemma set_page_wf:
  assumes "bpm_wf b" and "\<And>p. page_id (g p) = page_id p \<and> pin_count (g p) = pin_count p"
  shows "bpm_wf (set_page b f g)"
proof (rule bpm_wf_transfer[OF assms(1)])
  fix i assume "i < length (pages b)"
  have g: "\<And>p. page_id (g p) = page_id p" "\<And>p. pin_count (g p) = pin_count p"
    using assms(2) by simp_all
  show "page_id (pages (set_page b f g) ! i) = page_id (pages b ! i) \<and>
        pin_count (pages (set_page b f g) ! i) = pin_count (pages b ! i)"
    by (cases "f < length (pages b)") (simp_all add: nth_list_update list_update_beyond g)
qed simp_all

lemma coherent_imp_but: "coherent b \<Longrightarrow> coherent_but f b"
  by (auto simp: coherent_def coherent_but_def)

lemma coherent_but_set_page: "coherent_but f (set_page b f g) = coherent_but f b"
  by (auto simp: coherent_but_def)

lemma coherent_but_dirty:
  "coherent_but f b \<Longrightarrow> is_dirty (pages b ! f) \<Longrightarrow> coherent b"
  unfolding coherent_but_def coherent_def by metis

lemma view_set_page:
  "f < length (pages b) \<Longrightarrow>
     view (set_page b f g) q =
       (if page_table b q = Some f then data (g (pages b ! f)) else view b q)"
  by (auto simp: view_def nth_list_update split: option.splits)

lemma new_page_None:
  assumes "new_page b f = (None, b')"
  shows "b' = b \<or>
         (\<exists>v b1. find_victim_page b = (Some v, b1) \<and>
                  fst (allocate_page (disk_manager b) f) = INVALID_PAGE_ID \<and>
                  b' = b1\<lparr>disk_manager := snd (allocate_page (disk_manager b) f)\<rparr>)"
proof (cases "find_victim_page b")
  case (Pair vo b1)
  show ?thesis
  proof (cases vo)
    case None
    with Pair assms find_victim_page_None[of b b1] show ?thesis
      by (simp add: new_page_def)
  next
    case (Some v)
    with Pair assms find_victim_page_frame[of b v b1] show ?thesis
      by (auto simp: new_page_def Let_def split: prod.splits if_splits)
  qed
qed

lemma new_page_Some:
  assumes "new_page b f = (Some (v, pid), b')" and "bpm_wf b"
  shows "\<exists>b1. find_victim_page b = (Some v, b1) \<and>
           \<not> alloc_fails (disk_manager b) f \<and>
           pid = \<lparr>fd = f, page_no = fd2pageno (disk_manager b) f\<rparr> \<and>
           page_no pid \<noteq> INVALID_PAGE_ID \<and>
           pages b' = (pages b)[v := \<lparr>page_id = pid, data = zero_page,
                                      is_dirty = False, pin_count = 1\<rparr>] \<and>
           page_table b' = (if bound (pages b ! v)
                            then (page_table b)(page_id (pages b ! v) := None)
                            else page_table b)(pid \<mapsto> v) \<and>
           free_list b' = free_list b1 \<and>
           replacer b' = pin (replacer b1) v \<and>
           disk_pages (disk_manager b') =
             (if bound (pages b ! v) \<and> is_dirty (pages b ! v)
              then (disk_pages (disk_manager b))(page_id (pages b ! v) := data (pages b ! v))
              else disk_pages (disk_manager b)) \<and>
           disk_hdrs (disk_manager b') = disk_hdrs (disk_manager b) \<and>
           alloc_fails (disk_manager b') = alloc_fails (disk_manager b) \<and>
           fd2pageno (disk_manager b') =
             (fd2pageno (disk_manager b))(f := fd2pageno (disk_manager b) f + 1)"
proof (cases "find_victim_page b")
  case (Pair vo b1)
  show ?thesis
  proof (cases vo)
    case None
    with Pair assms show ?thesis by (simp add: new_page_def)
  next
    case (Some w)
    note fv = Pair[unfolded Some]
    from find_victim_page_frame[OF fv]
    have e: "pages b1 = pages b" "page_table b1 = page_table b" "disk_manager b1 = disk_manager b"
      by simp_all
    from find_victim_page_Some[OF assms(2) fv] have w: "w < length (pages b)" by simp
    show ?thesis
      using assms(1) fv e w
      by (auto simp: new_page_def Let_def allocate_page_def update_page_def bound_def
          write_page_def Page_update_all split: if_splits)
  qed
qed

section \<open>The page a file handle holds\<close>

lemma set_data_simps [simp]:
  "file_hdr (set_data h f g) = file_hdr h"
  "fh_fd (set_data h f g) = fh_fd h"
  "buffer_pool_manager (set_data h f g)
     = set_page (buffer_pool_manager h) f (\<lambda>p. p\<lparr>data := g (data p)\<rparr>)"
  by (simp_all add: set_data_def)

lemma rm_mark_dirty_simps [simp]:
  "file_hdr (rm_mark_dirty h f) = file_hdr h"
  "fh_fd (rm_mark_dirty h f) = fh_fd h"
  "buffer_pool_manager (rm_mark_dirty h f)
     = set_page (buffer_pool_manager h) f (\<lambda>p. p\<lparr>is_dirty := True\<rparr>)"
  by (simp_all add: rm_mark_dirty_def mark_dirty_def)

lemma rm_unpin_simps [simp]:
  "file_hdr (rm_unpin h f d) = file_hdr h"
  "fh_fd (rm_unpin h f d) = fh_fd h"
  by (simp_all add: rm_unpin_def)

lemma holding_frame:
  assumes "holding h f p"
  shows "frame_data h f = page_of h p" and "frame_page_id h f = \<lparr>fd = fh_fd h, page_no = p\<rparr>"
    and "0 < p \<or> p \<le> 0" and "p < num_pages (file_hdr h)"
  using assms
  by (auto simp: holding_def frame_data_def page_of_def view_def frame_page_id_def
      rm_base_def bpm_wf_def)

lemma holding_other_page:
  assumes "holding h f p"
  shows "page_table (buffer_pool_manager h) \<lparr>fd = fh_fd h, page_no = q\<rparr> = Some f \<longleftrightarrow> q = p"
proof
  assume "page_table (buffer_pool_manager h) \<lparr>fd = fh_fd h, page_no = q\<rparr> = Some f"
  moreover have "page_table (buffer_pool_manager h) \<lparr>fd = fh_fd h, page_no = p\<rparr> = Some f"
    and "bpm_wf (buffer_pool_manager h)"
    using assms by (simp_all add: holding_def rm_base_def)
  ultimately have "\<lparr>fd = fh_fd h, page_no = q\<rparr> = \<lparr>fd = fh_fd h, page_no = p\<rparr>"
    unfolding bpm_wf_def by metis
  then show "q = p" by simp
next
  assume "q = p" then show "page_table (buffer_pool_manager h) \<lparr>fd = fh_fd h, page_no = q\<rparr> = Some f"
    using assms by (simp add: holding_def)
qed

lemma holding_set_data:
  assumes "holding h f p"
  shows "holding (set_data h f g) f p"
    and "page_of (set_data h f g) q = (if q = p then g (page_of h p) else page_of h q)"
    and "frame_dirty (set_data h f g) f = frame_dirty h f"
proof -
  let ?b = "buffer_pool_manager h"
  let ?u = "\<lambda>p. p\<lparr>data := g (data p)\<rparr>"
  have b: "rm_base h" and cb: "coherent_but f ?b" and fl: "f < length (pages ?b)"
    and pt: "page_table ?b \<lparr>fd = fh_fd h, page_no = p\<rparr> = Some f"
    and pc: "0 < pin_count (pages ?b ! f)"
    using assms by (simp_all add: holding_def)
  have wf: "bpm_wf ?b" using b by (simp add: rm_base_def)
  have wf': "bpm_wf (set_page ?b f ?u)" by (rule set_page_wf[OF wf]) simp
  have "rm_base (set_data h f g)"
    using b wf' by (simp add: rm_base_def)
  moreover have "coherent_but f (set_page ?b f ?u)"
    using cb by (simp add: coherent_but_set_page)
  ultimately show "holding (set_data h f g) f p"
    using fl pt pc by (simp add: holding_def)
  show "page_of (set_data h f g) q = (if q = p then g (page_of h p) else page_of h q)"
    using holding_other_page[OF assms, of q] holding_frame(1)[OF assms] fl
    by (simp add: page_of_def view_set_page frame_data_def)
  show "frame_dirty (set_data h f g) f = frame_dirty h f"
    using fl by (simp add: frame_dirty_def)
qed

lemma holding_mark_dirty:
  assumes "holding h f p"
  shows "holding (rm_mark_dirty h f) f p"
    and "page_of (rm_mark_dirty h f) q = page_of h q"
    and "frame_dirty (rm_mark_dirty h f) f"
proof -
  let ?b = "buffer_pool_manager h"
  let ?u = "\<lambda>p. p\<lparr>is_dirty := True\<rparr>"
  have b: "rm_base h" and cb: "coherent_but f ?b" and fl: "f < length (pages ?b)"
    and pt: "page_table ?b \<lparr>fd = fh_fd h, page_no = p\<rparr> = Some f"
    and pc: "0 < pin_count (pages ?b ! f)"
    using assms by (simp_all add: holding_def)
  have wf: "bpm_wf ?b" using b by (simp add: rm_base_def)
  have wf': "bpm_wf (set_page ?b f ?u)" by (rule set_page_wf[OF wf]) simp
  have "rm_base (rm_mark_dirty h f)"
    using b wf' by (simp add: rm_base_def)
  moreover have "coherent_but f (set_page ?b f ?u)"
    using cb by (simp add: coherent_but_set_page)
  ultimately show "holding (rm_mark_dirty h f) f p"
    using fl pt pc by (simp add: holding_def)
  show "page_of (rm_mark_dirty h f) q = page_of h q"
    using fl by (simp add: page_of_def view_set_page) (simp add: view_def)
  show "frame_dirty (rm_mark_dirty h f) f"
    using fl by (simp add: frame_dirty_def)
qed

lemma holding_file_hdr:
  assumes "holding h f p" and "num_pages fh = num_pages (file_hdr h)"
  shows "holding (h\<lparr>file_hdr := fh\<rparr>) f p"
    and "page_of (h\<lparr>file_hdr := fh\<rparr>) q = page_of h q"
    and "frame_dirty (h\<lparr>file_hdr := fh\<rparr>) f = frame_dirty h f"
  using assms by (simp_all add: holding_def rm_base_def page_of_def frame_dirty_def)

lemma bpm_wf_disk_update [simp]: "bpm_wf (b\<lparr>disk_manager := d\<rparr>) = bpm_wf b"
  by (simp add: bpm_wf_def)

lemma write_hdr_simps [simp]:
  "disk_pages (write_hdr d x y) = disk_pages d"
  "fd2pageno (write_hdr d x y) = fd2pageno d"
  "alloc_fails (write_hdr d x y) = alloc_fails d"
  by (simp_all add: write_hdr_def)

lemma holding_write_hdr:
  assumes "holding h f p"
  shows "holding (h\<lparr>buffer_pool_manager :=
                     (buffer_pool_manager h)\<lparr>disk_manager :=
                        write_hdr (disk_manager (buffer_pool_manager h)) x y\<rparr>\<rparr>) f p"
    and "page_of (h\<lparr>buffer_pool_manager :=
                     (buffer_pool_manager h)\<lparr>disk_manager :=
                        write_hdr (disk_manager (buffer_pool_manager h)) x y\<rparr>\<rparr>) q = page_of h q"
    and "frame_dirty (h\<lparr>buffer_pool_manager :=
                     (buffer_pool_manager h)\<lparr>disk_manager :=
                        write_hdr (disk_manager (buffer_pool_manager h)) x y\<rparr>\<rparr>) f = frame_dirty h f"
proof -
  let ?b = "buffer_pool_manager h"
  let ?b' = "?b\<lparr>disk_manager := write_hdr (disk_manager ?b) x y\<rparr>"
  have "coherent_but f ?b' = coherent_but f ?b"
    by (simp add: coherent_but_def)
  then show "holding (h\<lparr>buffer_pool_manager := ?b'\<rparr>) f p"
    using assms by (simp add: holding_def rm_base_def)
  have "view ?b' = view ?b" by (rule view_cong) simp_all
  then show "page_of (h\<lparr>buffer_pool_manager := ?b'\<rparr>) q = page_of h q"
    by (simp add: page_of_def)
  show "frame_dirty (h\<lparr>buffer_pool_manager := ?b'\<rparr>) f = frame_dirty h f"
    by (simp add: frame_dirty_def)
qed

lemma rm_inv_holding:
  "holding h f p \<Longrightarrow> frame_dirty h f \<or> coherent (buffer_pool_manager h) \<Longrightarrow> rm_inv h"
  using coherent_but_dirty[of f "buffer_pool_manager h"]
  by (auto simp: holding_def rm_inv_def frame_dirty_def)

lemma fetch_page_handle_props:
  assumes inv: "rm_inv h" and res: "fetch_page_handle h p = (r, h1)"
  shows "rm_inv h1 \<and> file_hdr h1 = file_hdr h \<and> fh_fd h1 = fh_fd h \<and>
         (\<forall>q. page_of h1 q = page_of h q) \<and>
         length (pages (buffer_pool_manager h1)) = length (pages (buffer_pool_manager h)) \<and>
         (\<forall>f. r = Inr f \<longrightarrow>
            holding h1 f p \<and> 0 < p \<and> p < num_pages (file_hdr h) \<and>
            (idle h \<longrightarrow> idle_but f h1)) \<and>
         (\<forall>e. r = Inl e \<longrightarrow>
            h1 = h \<and>
            (e = PageNotExistError p \<and> (p \<le> 0 \<or> num_pages (file_hdr h) \<le> p) \<or>
             0 < p \<and> p < num_pages (file_hdr h) \<and>
             free_list (buffer_pool_manager h) = [] \<and>
             LRUlist (replacer (buffer_pool_manager h)) = []))"
proof (cases "p \<le> RM_FILE_HDR_PAGE \<or> p \<ge> num_pages (file_hdr h)")
  case True
  with res have "r = Inl (PageNotExistError p)" "h1 = h"
    by (auto simp: fetch_page_handle_def)
  with True inv show ?thesis by (auto simp: RM_FILE_HDR_PAGE_def)
next
  case False
  then have p: "0 < p" "p < num_pages (file_hdr h)" by (simp_all add: RM_FILE_HDR_PAGE_def)
  let ?b = "buffer_pool_manager h"
  let ?pid = "\<lparr>fd = fh_fd h, page_no = p\<rparr>"
  obtain ro b' where fp: "fetch_page ?b ?pid = (ro, b')" by (cases "fetch_page ?b ?pid")
  have wf: "bpm_wf ?b" and co: "coherent ?b" and base: "rm_base h"
    using inv by (simp_all add: rm_inv_def rm_base_def)
  have pid: "page_no ?pid \<noteq> INVALID_PAGE_ID" using p by (simp add: INVALID_PAGE_ID_def)
  note P = fetch_page_props[OF wf co pid fp]
  have h1: "h1 = h\<lparr>buffer_pool_manager := b'\<rparr>"
    and r: "r = (case ro of None \<Rightarrow> Inl (RMDBError ''Failed to fetch page'') | Some f \<Rightarrow> Inr f)"
    using res False fp by (auto simp: fetch_page_handle_def split: option.splits)
  have c: "file_hdr h1 = file_hdr h" "fh_fd h1 = fh_fd h" "buffer_pool_manager h1 = b'"
    by (simp_all add: h1)
  have pt: "\<And>q g. page_table b' q = Some g \<Longrightarrow> q = ?pid \<or> page_table ?b q = Some g"
    using P by blast
  have base1: "rm_base h1"
    unfolding rm_base_def c
  proof (intro conjI allI impI)
    show "bpm_wf b'" using P by simp
    show "1 \<le> num_pages (file_hdr h)" using base by (simp add: rm_base_def)
    show "fd2pageno (disk_manager b') (fh_fd h) = num_pages (file_hdr h)"
      using P base by (simp add: rm_base_def)
    fix q g assume "page_table b' \<lparr>fd = fh_fd h, page_no = q\<rparr> = Some g"
    from pt[OF this] show "q < num_pages (file_hdr h)"
      using p base unfolding rm_base_def by auto
  qed
  have inv1: "rm_inv h1" using base1 P by (simp add: rm_inv_def c)
  have V: "\<forall>q. page_of h1 q = page_of h q" using P by (simp add: page_of_def c)
  have len: "length (pages (buffer_pool_manager h1)) = length (pages ?b)"
    using P by (simp add: c)
  have S: "\<forall>f. r = Inr f \<longrightarrow> holding h1 f p \<and> 0 < p \<and> p < num_pages (file_hdr h) \<and>
            (idle h \<longrightarrow> idle_but f h1)"
  proof (intro allI impI)
    fix f assume "r = Inr f"
    then have ro: "ro = Some f" using r by (simp split: option.splits)
    have F: "f < length (pages b')" "page_table b' ?pid = Some f"
      "0 < pin_count (pages b' ! f)"
      "set (free_list ?b) \<union> set (LRUlist (replacer ?b))
              \<subseteq> insert f (set (free_list b') \<union> set (LRUlist (replacer b')))"
      "f \<in> set (free_list ?b) \<union> set (LRUlist (replacer ?b)) \<longrightarrow> pin_count (pages b' ! f) = 1"
      using P ro by simp_all
    have H: "holding h1 f p"
      using base1 F(1,2,3) P coherent_imp_but[of b' f] by (simp add: holding_def c)
    have I: "idle h \<longrightarrow> idle_but f h1"
    proof
      assume i: "idle h"
      have fl: "f < length (pages ?b)" using F(1) P by simp
      with i have "f \<in> set (free_list ?b) \<union> set (LRUlist (replacer ?b))"
        by (auto simp: idle_def)
      with F(5) have pc: "pin_count (pages b' ! f) = 1" by blast
      have "\<forall>g < length (pages b'). g \<noteq> f \<longrightarrow>
              g \<in> set (free_list b') \<or> g \<in> set (LRUlist (replacer b'))"
      proof (intro allI impI)
        fix g assume "g < length (pages b')" "g \<noteq> f"
        then have "g \<in> set (free_list ?b) \<union> set (LRUlist (replacer ?b))"
          using i P by (auto simp: idle_def)
        with F(4) \<open>g \<noteq> f\<close> show "g \<in> set (free_list b') \<or> g \<in> set (LRUlist (replacer b'))"
          by auto
      qed
      with pc show "idle_but f h1" by (simp add: idle_but_def c)
    qed
    from H I p show "holding h1 f p \<and> 0 < p \<and> p < num_pages (file_hdr h) \<and>
            (idle h \<longrightarrow> idle_but f h1)" by simp
  qed
  have E: "\<forall>e. r = Inl e \<longrightarrow>
            h1 = h \<and>
            (e = PageNotExistError p \<and> (p \<le> 0 \<or> num_pages (file_hdr h) \<le> p) \<or>
             0 < p \<and> p < num_pages (file_hdr h) \<and>
             free_list (buffer_pool_manager h) = [] \<and>
             LRUlist (replacer (buffer_pool_manager h)) = [])"
  proof (intro allI impI)
    fix e assume "r = Inl e"
    then have "ro = None" using r by (simp split: option.splits)
    with P have "b' = ?b" "free_list ?b = []" "LRUlist (replacer ?b) = []" by simp_all
    then show "h1 = h \<and>
            (e = PageNotExistError p \<and> (p \<le> 0 \<or> num_pages (file_hdr h) \<le> p) \<or>
             0 < p \<and> p < num_pages (file_hdr h) \<and>
             free_list (buffer_pool_manager h) = [] \<and>
             LRUlist (replacer (buffer_pool_manager h)) = [])"
      using p h1 by simp
  qed
  from inv1 c V len S E show ?thesis by blast
qed

lemma rm_unpin_props:
  assumes ho: "holding h f p" and cl: "frame_dirty h f \<or> coherent (buffer_pool_manager h)"
  shows "rm_inv (rm_unpin h f d)"
    and "page_of (rm_unpin h f d) q = page_of h q"
    and "idle_but f h \<Longrightarrow> idle (rm_unpin h f d)"
    and "length (pages (buffer_pool_manager (rm_unpin h f d)))
           = length (pages (buffer_pool_manager h))"
proof -
  let ?b = "buffer_pool_manager h"
  let ?pid = "\<lparr>fd = fh_fd h, page_no = p\<rparr>"
  obtain ok b' where up: "unpin_page ?b ?pid d = (ok, b')" by (cases "unpin_page ?b ?pid d")
  have inv: "rm_inv h" by (rule rm_inv_holding[OF ho cl])
  have wf: "bpm_wf ?b" and co: "coherent ?b" and base: "rm_base h"
    using inv by (simp_all add: rm_inv_def rm_base_def)
  have pt: "page_table ?b ?pid = Some f" and pc: "0 < pin_count (pages ?b ! f)"
    using ho by (simp_all add: holding_def)
  note P = unpin_page_props[OF wf up]
  have u: "rm_unpin h f d = h\<lparr>buffer_pool_manager := b'\<rparr>"
    using up holding_frame(2)[OF ho] by (simp add: rm_unpin_def)
  have "rm_base (h\<lparr>buffer_pool_manager := b'\<rparr>)"
    using base P by (simp add: rm_base_def)
  then show "rm_inv (rm_unpin h f d)"
    using P co by (simp add: rm_inv_def u)
  show "page_of (rm_unpin h f d) q = page_of h q"
    using P by (simp add: page_of_def u)
  show "length (pages (buffer_pool_manager (rm_unpin h f d))) = length (pages ?b)"
    using P by (simp add: u)
  {
    assume i: "idle_but f h"
    then have p1: "pin_count (pages ?b ! f) = 1" by (simp add: idle_but_def)
    have fin: "f \<in> set (LRUlist (replacer b'))" using P pt pc p1 by blast
    have "\<forall>g < length (pages b'). g \<in> set (free_list b') \<or> g \<in> set (LRUlist (replacer b'))"
    proof (intro allI impI)
      fix g assume g: "g < length (pages b')"
      show "g \<in> set (free_list b') \<or> g \<in> set (LRUlist (replacer b'))"
      proof (cases "g = f")
        case True then show ?thesis using fin by simp
      next
        case False
        with i g P have "g \<in> set (free_list ?b) \<or> g \<in> set (LRUlist (replacer ?b))"
          by (simp add: idle_but_def)
        then show ?thesis using P by auto
      qed
    qed
    then show "idle (rm_unpin h f d)" by (simp add: idle_def u)
  }
qed

lemma idle_but_cong:
  assumes "idle_but f h"
    and "free_list (buffer_pool_manager h') = free_list (buffer_pool_manager h)"
    and "replacer (buffer_pool_manager h') = replacer (buffer_pool_manager h)"
    and "length (pages (buffer_pool_manager h')) = length (pages (buffer_pool_manager h))"
    and "pin_count (pages (buffer_pool_manager h') ! f) = pin_count (pages (buffer_pool_manager h) ! f)"
  shows "idle_but f h'"
  using assms by (simp add: idle_but_def)

lemma nth_list_update_self:
  "P (g (xs ! f)) = P (xs ! f) \<Longrightarrow> P (xs[f := g (xs ! f)] ! f) = P (xs ! f)"
  by (cases "f < length xs") (simp_all add: list_update_beyond)

lemma idle_but_set_data: "idle_but f h \<Longrightarrow> idle_but f (set_data h f g)"
  by (rule idle_but_cong) (simp_all add: nth_list_update_self)

lemma idle_but_mark_dirty: "idle_but f h \<Longrightarrow> idle_but f (rm_mark_dirty h f)"
  by (rule idle_but_cong) (simp_all add: nth_list_update_self)

lemma idle_but_file_hdr: "idle_but f h \<Longrightarrow> idle_but f (h\<lparr>file_hdr := fh\<rparr>)"
  by (simp add: idle_but_def)

lemma idle_but_write_hdr:
  "idle_but f h \<Longrightarrow>
     idle_but f (h\<lparr>buffer_pool_manager := (buffer_pool_manager h)\<lparr>disk_manager := d\<rparr>\<rparr>)"
  by (simp add: idle_but_def)

lemma create_new_page_handle_fail:
  assumes inv: "rm_inv h" and res: "create_new_page_handle h = (Inl e, h1)"
  shows "rm_inv h1 \<and> file_hdr h1 = file_hdr h \<and> fh_fd h1 = fh_fd h \<and>
         (\<forall>q. page_of h1 q = page_of h q)"
proof -
  let ?b = "buffer_pool_manager h"
  obtain b' where np: "new_page ?b (fh_fd h) = (None, b')" and h1: "h1 = h\<lparr>buffer_pool_manager := b'\<rparr>"
    using res by (auto simp: create_new_page_handle_def Let_def split: prod.splits option.splits)
  have wf: "bpm_wf ?b" and co: "coherent ?b" and base: "rm_base h"
    using inv by (simp_all add: rm_inv_def rm_base_def)
  have cnt: "fd2pageno (disk_manager ?b) (fh_fd h) \<noteq> INVALID_PAGE_ID"
    using base by (simp add: rm_base_def INVALID_PAGE_ID_def)
  from new_page_None[OF np]
  have "b' = ?b \<or> (\<exists>v b1. find_victim_page ?b = (Some v, b1) \<and> b' = b1)"
  proof
    assume "b' = ?b" then show ?thesis by simp
  next
    assume "\<exists>v b1. find_victim_page ?b = (Some v, b1) \<and>
                  fst (allocate_page (disk_manager ?b) (fh_fd h)) = INVALID_PAGE_ID \<and>
                  b' = b1\<lparr>disk_manager := snd (allocate_page (disk_manager ?b) (fh_fd h))\<rparr>"
    then obtain v b1 where fv: "find_victim_page ?b = (Some v, b1)"
      and al: "fst (allocate_page (disk_manager ?b) (fh_fd h)) = INVALID_PAGE_ID"
      and b': "b' = b1\<lparr>disk_manager := snd (allocate_page (disk_manager ?b) (fh_fd h))\<rparr>"
      by blast
    from al cnt have "snd (allocate_page (disk_manager ?b) (fh_fd h)) = disk_manager ?b"
      by (simp add: allocate_page_def split: if_splits)
    with b' find_victim_page_frame[OF fv] have "b' = b1" by simp
    with fv show ?thesis by blast
  qed
  then have P: "bpm_wf b' \<and> coherent b' \<and> view b' = view ?b \<and>
                disk_manager b' = disk_manager ?b \<and> page_table b' = page_table ?b"
  proof
    assume "b' = ?b" then show ?thesis using wf co by simp
  next
    assume "\<exists>v b1. find_victim_page ?b = (Some v, b1) \<and> b' = b1"
    then obtain v where fv: "find_victim_page ?b = (Some v, b')" by blast
    note e = find_victim_page_frame[OF fv]
    have "bpm_wf b'" using find_victim_page_Some[OF wf fv] by simp
    moreover have "coherent b'" using co coherent_cong[of b' ?b] e by simp
    moreover have "view b' = view ?b" using view_cong[of b' ?b] e by simp
    ultimately show ?thesis using e by simp
  qed
  then have "rm_base h1" using base by (simp add: rm_base_def h1)
  then show ?thesis using P by (simp add: rm_inv_def h1 page_of_def)
qed

lemma create_new_page_handle_ok:
  assumes inv: "rm_inv h" and res: "create_new_page_handle h = (Inr f, h1)"
  shows "holding h1 f (num_pages (file_hdr h)) \<and> frame_dirty h1 f \<and>
         file_hdr h1 = (file_hdr h)\<lparr>num_pages := num_pages (file_hdr h) + 1\<rparr> \<and>
         fh_fd h1 = fh_fd h \<and>
         page_of h1 (num_pages (file_hdr h)) = empty_data_page \<and>
         (\<forall>q. q \<noteq> num_pages (file_hdr h) \<longrightarrow> page_of h1 q = page_of h q) \<and>
         length (pages (buffer_pool_manager h1)) = length (pages (buffer_pool_manager h)) \<and>
         (idle h \<longrightarrow> idle_but f h1)"
proof -
  let ?b = "buffer_pool_manager h"
  let ?n = "num_pages (file_hdr h)"
  let ?pid = "\<lparr>fd = fh_fd h, page_no = ?n\<rparr>"
  have wf: "bpm_wf ?b" and co: "coherent ?b" and base: "rm_base h"
    using inv by (simp_all add: rm_inv_def rm_base_def)
  have cnt: "fd2pageno (disk_manager ?b) (fh_fd h) = ?n" and n1: "1 \<le> ?n"
    and cached: "\<And>p g. page_table ?b \<lparr>fd = fh_fd h, page_no = p\<rparr> = Some g \<Longrightarrow> p < ?n"
    using base unfolding rm_base_def by blast+
  obtain pid b' where np: "new_page ?b (fh_fd h) = (Some (f, pid), b')"
    using res by (auto simp: create_new_page_handle_def Let_def split: prod.splits option.splits)
  from new_page_Some[OF np wf] obtain b1 where
    fv: "find_victim_page ?b = (Some f, b1)"
    and pid: "pid = ?pid" "page_no pid \<noteq> INVALID_PAGE_ID"
    and ps: "pages b' = (pages ?b)[f := \<lparr>page_id = pid, data = zero_page,
                                         is_dirty = False, pin_count = 1\<rparr>]"
    and pt: "page_table b' = (if bound (pages ?b ! f)
                              then (page_table ?b)(page_id (pages ?b ! f) := None)
                              else page_table ?b)(pid \<mapsto> f)"
    and fl: "free_list b' = free_list b1"
    and rp: "replacer b' = pin (replacer b1) f"
    and dp: "disk_pages (disk_manager b') =
             (if bound (pages ?b ! f) \<and> is_dirty (pages ?b ! f)
              then (disk_pages (disk_manager ?b))(page_id (pages ?b ! f) := data (pages ?b ! f))
              else disk_pages (disk_manager ?b))"
    and dk: "fd2pageno (disk_manager b') =
             (fd2pageno (disk_manager ?b))(fh_fd h := fd2pageno (disk_manager ?b) (fh_fd h) + 1)"
    using cnt by auto
  note e = find_victim_page_frame[OF fv]
  from find_victim_page_Some[OF wf fv]
  have v: "f < length (pages ?b)" and vf: "f \<notin> set (free_list b1)"
    and vr: "f \<notin> set (LRUlist (replacer b1))" and w1: "bpm_wf b1"
    and un: "set (free_list ?b) \<union> set (LRUlist (replacer ?b))
               = insert f (set (free_list b1) \<union> set (LRUlist (replacer b1)))"
    by simp_all
  have hv: "f \<notin> LRUhash (replacer b1)" using w1 vr unfolding bpm_wf_def by simp
  define b2 where "b2 = buffer_pool_manager h1"
  have h1: "file_hdr h1 = (file_hdr h)\<lparr>num_pages := ?n + 1\<rparr>" "fh_fd h1 = fh_fd h"
    and b2: "pages b2 = (pages b')[f := \<lparr>page_id = pid, data = empty_data_page,
                                          is_dirty = True, pin_count = 1\<rparr>]"
      "page_table b2 = page_table b'" "free_list b2 = free_list b'" "replacer b2 = replacer b'"
      "disk_manager b2 = disk_manager b'"
    using res np v pid(1) unfolding b2_def
    by (auto simp: create_new_page_handle_def Let_def ps zero_page_def empty_data_page_def
        Bitmap_init_def)
  have c: "pages b2 = (pages b1)[f := \<lparr>page_id = pid, data = empty_data_page,
                                        is_dirty = True, pin_count = 1\<rparr>]"
    "page_table b2 = (if bound (pages b1 ! f)
                      then (page_table b1)(page_id (pages b1 ! f) := None)
                      else page_table b1)(pid \<mapsto> f)"
    "free_list b2 = free_list b1" "replacer b2 = replacer b1"
    "disk_pages (disk_manager b2) =
       (if bound (pages b1 ! f) \<and> is_dirty (pages b1 ! f)
        then (disk_pages (disk_manager b1))(page_id (pages b1 ! f) := data (pages b1 ! f))
        else disk_pages (disk_manager b1))"
    by (simp_all add: b2 ps pt fl rp dp e pin_absent[OF hv])
  have m1: "page_table b1 pid = None"
  proof (cases "page_table ?b ?pid")
    case None then show ?thesis using e pid by simp
  next
    case (Some g) from cached[OF this] show ?thesis by simp
  qed
  have v': "f < length (pages b1)" using v e by simp
  have co1: "coherent b1" using co coherent_cong[of b1 ?b] e by simp
  have v1: "view b1 = view ?b" using view_cong[of b1 ?b] e by simp
  note rb = rebind_props[OF w1 v' vf vr pid(2) m1 c]
  have W: "bpm_wf b2" by (rule rb(1))
  have C: "coherent b2" using rb(2)[OF co1] by simp
  have ptf: "page_table b2 pid = Some f" by (simp add: c)
  have nf: "pages b2 ! f = \<lparr>page_id = pid, data = empty_data_page,
                              is_dirty = True, pin_count = 1\<rparr>"
    using v' by (simp add: c)
  have base2: "rm_base h1"
    unfolding rm_base_def h1 b2_def[symmetric]
  proof (intro conjI allI impI)
    show "bpm_wf b2" by (rule W)
    show "1 \<le> num_pages ((file_hdr h)\<lparr>num_pages := ?n + 1\<rparr>)" using n1 by simp
    show "fd2pageno (disk_manager b2) (fh_fd h) = num_pages ((file_hdr h)\<lparr>num_pages := ?n + 1\<rparr>)"
      using cnt by (simp add: b2 dk)
    fix p g assume "page_table b2 \<lparr>fd = fh_fd h, page_no = p\<rparr> = Some g"
    from rb(6)[OF this] have "p = ?n \<or> page_table ?b \<lparr>fd = fh_fd h, page_no = p\<rparr> = Some g"
      using pid e by auto
    then show "p < num_pages ((file_hdr h)\<lparr>num_pages := ?n + 1\<rparr>)"
      using cached[of p g] by auto
  qed
  have H: "holding h1 f ?n"
    using base2 coherent_imp_but[OF C, of f] v' ptf nf pid
    by (simp add: holding_def b2_def[symmetric] h1 c(1))
  have D: "frame_dirty h1 f" by (simp add: frame_dirty_def b2_def[symmetric] nf)
  have V1: "page_of h1 ?n = empty_data_page"
    using rb(4) pid by (simp add: page_of_def b2_def[symmetric] h1)
  have V2: "\<forall>q. q \<noteq> ?n \<longrightarrow> page_of h1 q = page_of h q"
  proof (intro allI impI)
    fix q assume "q \<noteq> ?n"
    then have "\<lparr>fd = fh_fd h, page_no = q\<rparr> \<noteq> pid" using pid by simp
    from rb(3)[OF co1 this] show "page_of h1 q = page_of h q"
      by (simp add: page_of_def b2_def[symmetric] h1 v1)
  qed
  have L: "length (pages (buffer_pool_manager h1)) = length (pages ?b)"
    by (simp add: b2_def[symmetric] c e)
  have I: "idle h \<longrightarrow> idle_but f h1"
  proof
    assume i: "idle h"
    have "\<forall>g < length (pages b2). g \<noteq> f \<longrightarrow>
            g \<in> set (free_list b2) \<or> g \<in> set (LRUlist (replacer b2))"
    proof (intro allI impI)
      fix g assume "g < length (pages b2)" "g \<noteq> f"
      then have "g \<in> set (free_list ?b) \<union> set (LRUlist (replacer ?b))"
        using i L by (auto simp: idle_def b2_def)
      with un \<open>g \<noteq> f\<close> show "g \<in> set (free_list b2) \<or> g \<in> set (LRUlist (replacer b2))"
        by (auto simp: c)
    qed
    then show "idle_but f h1" by (simp add: idle_but_def b2_def[symmetric] nf)
  qed
  from H D h1 V1 V2 L I show ?thesis by blast
qed

lemma rm_unpin_cached:
  assumes ho: "holding h f p"
  shows "cached (rm_unpin h f d) p"
    and "frame_dirty h f \<or> d \<Longrightarrow> page_dirty (rm_unpin h f d) p"
proof -
  let ?b = "buffer_pool_manager h"
  let ?pid = "\<lparr>fd = fh_fd h, page_no = p\<rparr>"
  obtain ok b' where up: "unpin_page ?b ?pid d = (ok, b')" by (cases "unpin_page ?b ?pid d")
  have wf: "bpm_wf ?b" and pt: "page_table ?b ?pid = Some f"
    and pc: "0 < pin_count (pages ?b ! f)"
    using ho by (simp_all add: holding_def rm_base_def)
  note P = unpin_page_props[OF wf up]
  have u: "rm_unpin h f d = h\<lparr>buffer_pool_manager := b'\<rparr>"
    using up holding_frame(2)[OF ho] by (simp add: rm_unpin_def)
  show "cached (rm_unpin h f d) p" using P pt by (simp add: cached_def u)
  {
    assume "frame_dirty h f \<or> d"
    then have "is_dirty (pages b' ! f)" using P pt pc by (auto simp: frame_dirty_def)
    then show "page_dirty (rm_unpin h f d) p" using P pt by (simp add: page_dirty_def u)
  }
qed

lemma fetch_page_handle_cached:
  assumes inv: "rm_inv h" and c: "cached h p" and p: "0 < p"
  shows "\<exists>f h1. fetch_page_handle h p = (Inr f, h1)"
proof -
  obtain f where f: "page_table (buffer_pool_manager h) \<lparr>fd = fh_fd h, page_no = p\<rparr> = Some f"
    using c by (auto simp: cached_def)
  then have "p < num_pages (file_hdr h)" using inv unfolding rm_inv_def rm_base_def by blast
  with p f show ?thesis
    by (simp add: fetch_page_handle_def fetch_page_hit RM_FILE_HDR_PAGE_def)
qed

text \<open>The effect of \<open>get_record\<close>.\<close>

lemma get_record_props:
  assumes inv: "rm_inv h" and res: "get_record h rid = (r, h')"
  shows "rm_inv h' \<and> file_hdr h' = file_hdr h \<and> fh_fd h' = fh_fd h \<and>
         (\<forall>q. page_of h' q = page_of h q) \<and> (idle h \<longrightarrow> idle h') \<and>
         length (pages (buffer_pool_manager h')) = length (pages (buffer_pool_manager h)) \<and>
         (\<forall>buf. r = Inr buf \<longrightarrow>
            buf = memcpy_from_slot (page_of h (rid_page_no rid)) (slot_no rid)
                    (nat (record_size (file_hdr h))))"
proof (cases "fetch_page_handle h (rid_page_no rid)")
  case (Pair r1 h1)
  note F = fetch_page_handle_props[OF inv Pair]
  show ?thesis
  proof (cases r1)
    case (Inl e)
    with Pair res have "h' = h1" "r = Inl e" by (simp_all add: get_record_def)
    with F Inl show ?thesis by auto
  next
    case (Inr f)
    let ?p = "rid_page_no rid"
    have ho: "holding h1 f ?p" and co: "coherent (buffer_pool_manager h1)"
      and hd: "file_hdr h1 = file_hdr h" and fd: "fh_fd h1 = fh_fd h"
      and V: "\<And>q. page_of h1 q = page_of h q"
      and I: "idle h \<longrightarrow> idle_but f h1"
      and L: "length (pages (buffer_pool_manager h1)) = length (pages (buffer_pool_manager h))"
      using F Inr by (simp_all add: rm_inv_def)
    have h': "h' = rm_unpin h1 f False"
      using res Pair Inr by (auto simp: get_record_def split: if_splits)
    note U = rm_unpin_props[OF ho disjI2[OF co], of False]
    have fdat: "frame_data h1 f = page_of h ?p" using holding_frame(1)[OF ho] V by simp
    have "\<forall>buf. r = Inr buf \<longrightarrow>
            buf = memcpy_from_slot (page_of h ?p) (slot_no rid) (nat (record_size (file_hdr h)))"
      using res Pair Inr fdat hd by (auto simp: get_record_def split: if_splits)
    then show ?thesis using U V hd fd I L by (simp add: h')
  qed
qed

text \<open>The state after an operation that fetched a page and throws before writing to it.\<close>

lemma fetch_unpin_clean:
  assumes inv: "rm_inv h" and f: "fetch_page_handle h p = (Inr f, h1)"
  shows "rm_inv (rm_unpin h1 f False) \<and> file_hdr (rm_unpin h1 f False) = file_hdr h \<and>
         fh_fd (rm_unpin h1 f False) = fh_fd h \<and>
         (\<forall>q. page_of (rm_unpin h1 f False) q = page_of h q) \<and>
         (idle h \<longrightarrow> idle (rm_unpin h1 f False)) \<and>
         length (pages (buffer_pool_manager (rm_unpin h1 f False)))
           = length (pages (buffer_pool_manager h))"
proof -
  note F = fetch_page_handle_props[OF inv f]
  have ho: "holding h1 f p" and co: "coherent (buffer_pool_manager h1)"
    using F by (simp_all add: rm_inv_def)
  note U = rm_unpin_props[OF ho disjI2[OF co], of False]
  show ?thesis using F U by simp
qed

text \<open>
  The state after an operation that wrote to the page it holds: \<open>h2\<close> is reached from the
  fetch by writes to the frame, a dirty mark and changes of the file header that keep
  \<open>num_pages\<close>.
\<close>

lemma unpin_written:
  assumes ho: "holding h2 f p" and d: "frame_dirty h2 f"
  shows "rm_inv (rm_unpin h2 f True) \<and> file_hdr (rm_unpin h2 f True) = file_hdr h2 \<and>
         fh_fd (rm_unpin h2 f True) = fh_fd h2 \<and>
         (\<forall>q. page_of (rm_unpin h2 f True) q = page_of h2 q) \<and>
         (idle_but f h2 \<longrightarrow> idle (rm_unpin h2 f True)) \<and>
         length (pages (buffer_pool_manager (rm_unpin h2 f True)))
           = length (pages (buffer_pool_manager h2)) \<and>
         cached (rm_unpin h2 f True) p \<and> page_dirty (rm_unpin h2 f True) p"
  using rm_unpin_props[OF ho disjI1[OF d], of True] rm_unpin_cached[OF ho, of True]
  by simp

lemma insert_record_at_err:
  assumes inv: "rm_inv h" and res: "insert_record_at h rid buf = (Inl e, h')"
  shows "rm_inv h' \<and> file_hdr h' = file_hdr h \<and> fh_fd h' = fh_fd h \<and>
         (\<forall>q. page_of h' q = page_of h q) \<and> (idle h \<longrightarrow> idle h') \<and>
         length (pages (buffer_pool_manager h')) = length (pages (buffer_pool_manager h)) \<and>
         (h' = h \<or> slot_no rid < 0 \<or> num_records_per_page (file_hdr h) \<le> slot_no rid)"
proof (cases "fetch_page_handle h (rid_page_no rid)")
  case (Pair r1 h1)
  note F = fetch_page_handle_props[OF inv Pair]
  show ?thesis
  proof (cases r1)
    case (Inl e1)
    with Pair res have "h' = h1" by (simp add: insert_record_at_def)
    with F Inl show ?thesis by auto
  next
    case (Inr f)
    with Pair res have "h' = rm_unpin h1 f False"
      and "slot_no rid < 0 \<or> num_records_per_page (file_hdr h1) \<le> slot_no rid"
      by (auto simp: insert_record_at_def Let_def split: if_splits)
    with fetch_unpin_clean[OF inv Pair[unfolded Inr]] F show ?thesis by simp
  qed
qed

lemma insert_record_at_ok:
  assumes inv: "rm_inv h" and res: "insert_record_at h rid buf = (Inr u, h')"
  shows "rm_inv h' \<and> file_hdr h' = file_hdr h \<and> fh_fd h' = fh_fd h \<and>
         0 < rid_page_no rid \<and> rid_page_no rid < num_pages (file_hdr h) \<and>
         0 \<le> slot_no rid \<and> slot_no rid < num_records_per_page (file_hdr h) \<and>
         cached h' (rid_page_no rid) \<and> page_dirty h' (rid_page_no rid) \<and>
         (idle h \<longrightarrow> idle h') \<and>
         length (pages (buffer_pool_manager h')) = length (pages (buffer_pool_manager h)) \<and>
         page_of h' (rid_page_no rid) =
           (memcpy_to_slot (page_of h (rid_page_no rid)) (slot_no rid) buf
              (nat (record_size (file_hdr h))))
           \<lparr>bitmap := Bitmap_set (bitmap (page_of h (rid_page_no rid))) (slot_no rid),
            page_hdr := (page_hdr (page_of h (rid_page_no rid)))
              \<lparr>num_records := num_records (page_hdr (page_of h (rid_page_no rid)))
                 + (if Bitmap_is_set (bitmap (page_of h (rid_page_no rid))) (slot_no rid)
                    then 0 else 1)\<rparr>\<rparr> \<and>
         (\<forall>q. q \<noteq> rid_page_no rid \<longrightarrow> page_of h' q = page_of h q)"
proof (cases "fetch_page_handle h (rid_page_no rid)")
  case (Pair r1 h1)
  let ?p = "rid_page_no rid" and ?s = "slot_no rid"
  let ?n = "nat (record_size (file_hdr h))"
  let ?D = "page_of h ?p"
  from res Pair obtain f where r1: "r1 = Inr f"
    by (cases r1) (auto simp: insert_record_at_def)
  note F = fetch_page_handle_props[OF inv Pair]
  have ho: "holding h1 f ?p" and hd: "file_hdr h1 = file_hdr h" and fd: "fh_fd h1 = fh_fd h"
    and V: "\<And>q. page_of h1 q = page_of h q" and p: "0 < ?p" "?p < num_pages (file_hdr h)"
    and I: "idle h \<longrightarrow> idle_but f h1"
    and L: "length (pages (buffer_pool_manager h1)) = length (pages (buffer_pool_manager h))"
    using F r1 by simp_all
  have s: "0 \<le> ?s" "?s < num_records_per_page (file_hdr h)"
    using res Pair r1 hd by (auto simp: insert_record_at_def Let_def split: if_splits)
  have fdat: "frame_data h1 f = ?D" using holding_frame(1)[OF ho] V by simp
  define h2 where "h2 = set_data h1 f (\<lambda>d. memcpy_to_slot d ?s buf ?n)"
  define h3 where "h3 = set_data h2 f (\<lambda>d. d\<lparr>bitmap := Bitmap_set (bitmap d) ?s\<rparr>)"
  define h4 where "h4 = (if Bitmap_is_set (bitmap ?D) ?s then h3
     else set_data h3 f (\<lambda>d. d\<lparr>page_hdr := (page_hdr d)\<lparr>num_records := num_records (page_hdr d) + 1\<rparr>\<rparr>))"
  define h5 where "h5 = rm_mark_dirty h4 f"
  have h': "h' = rm_unpin h5 f True"
    using res Pair r1 s hd fdat
    by (auto simp: insert_record_at_def Let_def h2_def h3_def h4_def h5_def)
  note S2 = holding_set_data[OF ho, of "\<lambda>d. memcpy_to_slot d ?s buf ?n", folded h2_def]
  note S3 = holding_set_data[OF S2(1), of "\<lambda>d. d\<lparr>bitmap := Bitmap_set (bitmap d) ?s\<rparr>", folded h3_def]
  note S4' = holding_set_data[OF S3(1),
      of "\<lambda>d. d\<lparr>page_hdr := (page_hdr d)\<lparr>num_records := num_records (page_hdr d) + 1\<rparr>\<rparr>"]
  have H4: "holding h4 f ?p" using S3(1) S4'(1) by (simp add: h4_def)
  have hdr4: "file_hdr h4 = file_hdr h" "fh_fd h4 = fh_fd h"
    by (simp_all add: h4_def h3_def h2_def hd fd)
  have V4: "\<And>q. page_of h4 q =
      (if q = ?p then (memcpy_to_slot ?D ?s buf ?n)
           \<lparr>bitmap := Bitmap_set (bitmap ?D) ?s,
            page_hdr := (page_hdr ?D)
              \<lparr>num_records := num_records (page_hdr ?D)
                 + (if Bitmap_is_set (bitmap ?D) ?s then 0 else 1)\<rparr>\<rparr>
       else page_of h q)"
    using S2(2) S3(2) S4'(2) V by (simp add: h4_def memcpy_to_slot_def)
  have I4: "idle h \<longrightarrow> idle_but f h4"
    using I by (auto simp: h4_def h3_def h2_def intro!: idle_but_set_data)
  note S5 = holding_mark_dirty[OF H4, folded h5_def]
  have I5: "idle h \<longrightarrow> idle_but f h5"
    using I4 by (auto simp: h5_def intro!: idle_but_mark_dirty)
  have L5: "length (pages (buffer_pool_manager h5)) = length (pages (buffer_pool_manager h))"
    using L by (simp add: h5_def h4_def h3_def h2_def)
  note U = unpin_written[OF S5(1) S5(3)]
  show ?thesis
    using U S5(2) V4 hdr4 I5 L5 p s by (simp add: h' h5_def)
qed

lemma update_record_err:
  assumes inv: "rm_inv h" and res: "update_record h rid buf = (Inl e, h')"
  shows "rm_inv h' \<and> file_hdr h' = file_hdr h \<and> fh_fd h' = fh_fd h \<and>
         (\<forall>q. page_of h' q = page_of h q) \<and> (idle h \<longrightarrow> idle h') \<and>
         length (pages (buffer_pool_manager h')) = length (pages (buffer_pool_manager h))"
proof (cases "fetch_page_handle h (rid_page_no rid)")
  case (Pair r1 h1)
  note F = fetch_page_handle_props[OF inv Pair]
  show ?thesis
  proof (cases r1)
    case (Inl e1)
    with Pair res have "h' = h1" by (simp add: update_record_def)
    with F Inl show ?thesis by auto
  next
    case (Inr f)
    with Pair res have "h' = rm_unpin h1 f False"
      by (auto simp: update_record_def Let_def split: if_splits)
    with fetch_unpin_clean[OF inv Pair[unfolded Inr]] show ?thesis by simp
  qed
qed

lemma update_record_ok:
  assumes inv: "rm_inv h" and res: "update_record h rid buf = (Inr u, h')"
  shows "rm_inv h' \<and> file_hdr h' = file_hdr h \<and> fh_fd h' = fh_fd h \<and>
         0 < rid_page_no rid \<and> rid_page_no rid < num_pages (file_hdr h) \<and>
         0 \<le> slot_no rid \<and> slot_no rid < num_records_per_page (file_hdr h) \<and>
         Bitmap_is_set (bitmap (page_of h (rid_page_no rid))) (slot_no rid) \<and>
         cached h' (rid_page_no rid) \<and> page_dirty h' (rid_page_no rid) \<and>
         (idle h \<longrightarrow> idle h') \<and>
         length (pages (buffer_pool_manager h')) = length (pages (buffer_pool_manager h)) \<and>
         page_of h' (rid_page_no rid) =
           memcpy_to_slot (page_of h (rid_page_no rid)) (slot_no rid) buf
             (nat (record_size (file_hdr h))) \<and>
         (\<forall>q. q \<noteq> rid_page_no rid \<longrightarrow> page_of h' q = page_of h q)"
proof (cases "fetch_page_handle h (rid_page_no rid)")
  case (Pair r1 h1)
  let ?p = "rid_page_no rid" and ?s = "slot_no rid"
  let ?n = "nat (record_size (file_hdr h))"
  let ?D = "page_of h ?p"
  from res Pair obtain f where r1: "r1 = Inr f"
    by (cases r1) (auto simp: update_record_def)
  note F = fetch_page_handle_props[OF inv Pair]
  have ho: "holding h1 f ?p" and hd: "file_hdr h1 = file_hdr h" and fd: "fh_fd h1 = fh_fd h"
    and V: "\<And>q. page_of h1 q = page_of h q" and p: "0 < ?p" "?p < num_pages (file_hdr h)"
    and I: "idle h \<longrightarrow> idle_but f h1"
    and L: "length (pages (buffer_pool_manager h1)) = length (pages (buffer_pool_manager h))"
    using F r1 by simp_all
  have fdat: "frame_data h1 f = ?D" using holding_frame(1)[OF ho] V by simp
  have s: "0 \<le> ?s" "?s < num_records_per_page (file_hdr h)" "Bitmap_is_set (bitmap ?D) ?s"
    using res Pair r1 hd fdat by (auto simp: update_record_def Let_def split: if_splits)
  define h2 where "h2 = set_data h1 f (\<lambda>d. memcpy_to_slot d ?s buf ?n)"
  define h3 where "h3 = rm_mark_dirty h2 f"
  have h': "h' = rm_unpin h3 f True"
    using res Pair r1 s hd fdat
    by (auto simp: update_record_def Let_def h2_def h3_def)
  note S2 = holding_set_data[OF ho, of "\<lambda>d. memcpy_to_slot d ?s buf ?n", folded h2_def]
  note S3 = holding_mark_dirty[OF S2(1), folded h3_def]
  have I3: "idle h \<longrightarrow> idle_but f h3"
    using I by (auto simp: h3_def h2_def intro!: idle_but_mark_dirty idle_but_set_data)
  have L3: "length (pages (buffer_pool_manager h3)) = length (pages (buffer_pool_manager h))"
    using L by (simp add: h3_def h2_def)
  have hdr3: "file_hdr h3 = file_hdr h" "fh_fd h3 = fh_fd h"
    by (simp_all add: h3_def h2_def hd fd)
  note U = unpin_written[OF S3(1) S3(3)]
  show ?thesis
    using U S3(2) S2(2) V hdr3 I3 L3 p s by (simp add: h')
qed

lemma delete_record_err:
  assumes inv: "rm_inv h" and res: "delete_record h rid = (Inl e, h')"
  shows "rm_inv h' \<and> file_hdr h' = file_hdr h \<and> fh_fd h' = fh_fd h \<and>
         (\<forall>q. page_of h' q = page_of h q) \<and> (idle h \<longrightarrow> idle h') \<and>
         length (pages (buffer_pool_manager h')) = length (pages (buffer_pool_manager h))"
proof (cases "fetch_page_handle h (rid_page_no rid)")
  case (Pair r1 h1)
  note F = fetch_page_handle_props[OF inv Pair]
  show ?thesis
  proof (cases r1)
    case (Inl e1)
    with Pair res have "h' = h1" by (simp add: delete_record_def)
    with F Inl show ?thesis by auto
  next
    case (Inr f)
    with Pair res have "h' = rm_unpin h1 f False"
      by (auto simp: delete_record_def Let_def split: if_splits)
    with fetch_unpin_clean[OF inv Pair[unfolded Inr]] show ?thesis by simp
  qed
qed

lemma delete_record_ok:
  assumes inv: "rm_inv h" and res: "delete_record h rid = (Inr u, h')"
  shows "rm_inv h' \<and> fh_fd h' = fh_fd h \<and>
         0 < rid_page_no rid \<and> rid_page_no rid < num_pages (file_hdr h) \<and>
         0 \<le> slot_no rid \<and> slot_no rid < num_records_per_page (file_hdr h) \<and>
         Bitmap_is_set (bitmap (page_of h (rid_page_no rid))) (slot_no rid) \<and>
         cached h' (rid_page_no rid) \<and> page_dirty h' (rid_page_no rid) \<and>
         (idle h \<longrightarrow> idle h') \<and>
         length (pages (buffer_pool_manager h')) = length (pages (buffer_pool_manager h)) \<and>
         file_hdr h' =
           (if num_records (page_hdr (page_of h (rid_page_no rid)))
                 = num_records_per_page (file_hdr h)
            then (file_hdr h)\<lparr>first_free_page_no := rid_page_no rid\<rparr>
            else file_hdr h) \<and>
         page_of h' (rid_page_no rid) =
           (page_of h (rid_page_no rid))
           \<lparr>bitmap := Bitmap_reset (bitmap (page_of h (rid_page_no rid))) (slot_no rid),
            page_hdr :=
              \<lparr>num_records = num_records (page_hdr (page_of h (rid_page_no rid))) - 1,
               next_free_page_no =
                 (if num_records (page_hdr (page_of h (rid_page_no rid)))
                       = num_records_per_page (file_hdr h)
                  then first_free_page_no (file_hdr h)
                  else next_free_page_no (page_hdr (page_of h (rid_page_no rid))))\<rparr>\<rparr> \<and>
         (\<forall>q. q \<noteq> rid_page_no rid \<longrightarrow> page_of h' q = page_of h q)"
proof (cases "fetch_page_handle h (rid_page_no rid)")
  case (Pair r1 h1)
  let ?p = "rid_page_no rid" and ?s = "slot_no rid"
  let ?D = "page_of h ?p"
  let ?full = "num_records (page_hdr ?D) = num_records_per_page (file_hdr h)"
  from res Pair obtain f where r1: "r1 = Inr f"
    by (cases r1) (auto simp: delete_record_def)
  note F = fetch_page_handle_props[OF inv Pair]
  have ho: "holding h1 f ?p" and hd: "file_hdr h1 = file_hdr h" and fd: "fh_fd h1 = fh_fd h"
    and V: "\<And>q. page_of h1 q = page_of h q" and p: "0 < ?p" "?p < num_pages (file_hdr h)"
    and I: "idle h \<longrightarrow> idle_but f h1"
    and L: "length (pages (buffer_pool_manager h1)) = length (pages (buffer_pool_manager h))"
    using F r1 by simp_all
  have fdat: "frame_data h1 f = ?D" using holding_frame(1)[OF ho] V by simp
  have s: "0 \<le> ?s" "?s < num_records_per_page (file_hdr h)" "Bitmap_is_set (bitmap ?D) ?s"
    using res Pair r1 hd fdat by (auto simp: delete_record_def Let_def split: if_splits)
  define h2 where "h2 = set_data h1 f (\<lambda>d. d\<lparr>bitmap := Bitmap_reset (bitmap d) ?s\<rparr>)"
  define h3 where "h3 = set_data h2 f
     (\<lambda>d. d\<lparr>page_hdr := (page_hdr d)\<lparr>num_records := num_records (page_hdr d) - 1\<rparr>\<rparr>)"
  define h4 where "h4 = rm_mark_dirty h3 f"
  define h5 where "h5 = (if ?full then release_page_handle h4 f else h4)"
  note S2 = holding_set_data[OF ho, of "\<lambda>d. d\<lparr>bitmap := Bitmap_reset (bitmap d) ?s\<rparr>",
      folded h2_def]
  note S3 = holding_set_data[OF S2(1),
      of "\<lambda>d. d\<lparr>page_hdr := (page_hdr d)\<lparr>num_records := num_records (page_hdr d) - 1\<rparr>\<rparr>",
      folded h3_def]
  note S4 = holding_mark_dirty[OF S3(1), folded h4_def]
  have fd4: "frame_data h4 f = page_of h4 ?p" "frame_page_id h4 f = \<lparr>fd = fh_fd h4, page_no = ?p\<rparr>"
    using holding_frame[OF S4(1)] by simp_all
  have hdr4: "file_hdr h4 = file_hdr h" "fh_fd h4 = fh_fd h"
    by (simp_all add: h4_def h3_def h2_def hd fd)
  have V4: "page_of h4 ?p = ?D\<lparr>bitmap := Bitmap_reset (bitmap ?D) ?s,
                page_hdr := (page_hdr ?D)\<lparr>num_records := num_records (page_hdr ?D) - 1\<rparr>\<rparr>"
    "\<And>q. q \<noteq> ?p \<Longrightarrow> page_of h4 q = page_of h q"
    using S4(2) S3(2) S2(2) V by simp_all
  have Q: "num_records (page_hdr (frame_data h4 f)) = num_records (page_hdr ?D) - 1"
    using fd4(1) V4(1) by simp
  have h': "h' = rm_unpin h5 f True"
    using res Pair r1 s hd fdat Q[unfolded h4_def h3_def h2_def]
    by (auto simp: delete_record_def Let_def h2_def h3_def h4_def h5_def)
  have I4: "idle h \<longrightarrow> idle_but f h4"
    using I by (auto simp: h4_def h3_def h2_def intro!: idle_but_mark_dirty idle_but_set_data)
  have L4: "length (pages (buffer_pool_manager h4)) = length (pages (buffer_pool_manager h))"
    using L by (simp add: h4_def h3_def h2_def)
  define g where "g = (\<lambda>d::page_image. d\<lparr>page_hdr := (page_hdr d)
        \<lparr>next_free_page_no := first_free_page_no (file_hdr h4)\<rparr>\<rparr>)"
  have rel: "release_page_handle h4 f =
     rm_mark_dirty ((set_data h4 f g)\<lparr>file_hdr := (file_hdr h4)\<lparr>first_free_page_no := ?p\<rparr>\<rparr>) f"
    by (simp add: release_page_handle_def Let_def fd4 g_def)
  note R1 = holding_set_data[OF S4(1), of g]
  note R2 = holding_file_hdr[OF R1(1), of "(file_hdr h4)\<lparr>first_free_page_no := ?p\<rparr>"]
  have R2': "holding ((set_data h4 f g)\<lparr>file_hdr := (file_hdr h4)\<lparr>first_free_page_no := ?p\<rparr>\<rparr>) f ?p"
    by (rule R2(1)) simp
  note R3 = holding_mark_dirty[OF R2', folded rel]
  have H5: "holding h5 f ?p" "frame_dirty h5 f"
    using S4(1,3) R3(1,3) by (simp_all add: h5_def)
  have hdr5: "file_hdr h5 = (if ?full then (file_hdr h)\<lparr>first_free_page_no := ?p\<rparr> else file_hdr h)"
    "fh_fd h5 = fh_fd h"
    using hdr4 by (simp_all add: h5_def rel)
  have V5: "page_of h5 ?p = ?D\<lparr>bitmap := Bitmap_reset (bitmap ?D) ?s,
            page_hdr := \<lparr>num_records = num_records (page_hdr ?D) - 1,
               next_free_page_no = (if ?full then first_free_page_no (file_hdr h)
                  else next_free_page_no (page_hdr ?D))\<rparr>\<rparr>"
    "\<And>q. q \<noteq> ?p \<Longrightarrow> page_of h5 q = page_of h q"
    using R3(2) R2(2) R1(2) V4 hdr4 by (simp_all add: h5_def g_def)
  have I5: "idle h \<longrightarrow> idle_but f h5"
    using I4 by (auto simp: h5_def rel intro!: idle_but_mark_dirty idle_but_file_hdr idle_but_set_data)
  have L5: "length (pages (buffer_pool_manager h5)) = length (pages (buffer_pool_manager h))"
    using L4 by (simp add: h5_def rel)
  note U = unpin_written[OF H5]
  show ?thesis
    using U V5 hdr5 I5 L5 p s by (simp add: h')
qed

lemma next_bit_props:
  assumes "next_bit b bm n c = s"
  shows "(s = n \<and> (\<forall>i. c < i \<and> i < n \<longrightarrow> bm (nat i) \<noteq> b)) \<or>
         (c < s \<and> s < n \<and> bm (nat s) = b \<and> (\<forall>i. c < i \<and> i < s \<longrightarrow> bm (nat i) \<noteq> b))"
proof (cases "List.find (\<lambda>i. bm (nat i) = b) [c + 1..n - 1]")
  case None
  then have "s = n" using assms by (simp add: next_bit_def)
  moreover have "\<forall>i. c < i \<and> i < n \<longrightarrow> bm (nat i) \<noteq> b"
    using None by (auto simp: find_None_iff)
  ultimately show ?thesis by simp
next
  case (Some x)
  then have sx: "s = x" using assms by (simp add: next_bit_def)
  from Some obtain k where k: "k < length [c + 1..n - 1]" "bm (nat ([c + 1..n - 1] ! k)) = b"
    "x = [c + 1..n - 1] ! k" "\<forall>j<k. bm (nat ([c + 1..n - 1] ! j)) \<noteq> b"
    by (auto simp: find_Some_iff)
  have len: "int k < n - 1 - c" using k(1) by simp
  then have xk: "x = c + 1 + int k" using k(3) by simp
  have "\<forall>i. c < i \<and> i < x \<longrightarrow> bm (nat i) \<noteq> b"
  proof (intro allI impI)
    fix i assume i: "c < i \<and> i < x"
    define j where "j = nat (i - c - 1)"
    have j: "j < k" "i = c + 1 + int j" using i xk unfolding j_def by linarith+
    then have "[c + 1..n - 1] ! j = i" using len by simp
    with k(4) j(1) show "bm (nat i) \<noteq> b" by auto
  qed
  then show ?thesis using sx xk len k(2) k(3) by auto
qed

lemma create_page_handle_fail:
  assumes inv: "rm_inv h" and res: "create_page_handle h = (Inl e, h1)"
  shows "rm_inv h1 \<and> file_hdr h1 = file_hdr h \<and> fh_fd h1 = fh_fd h \<and>
         (\<forall>q. page_of h1 q = page_of h q)"
proof (cases "first_free_page_no (file_hdr h) \<noteq> RM_NO_PAGE")
  case True
  with res have "fetch_page_handle h (first_free_page_no (file_hdr h)) = (Inl e, h1)"
    by (simp add: create_page_handle_def)
  from fetch_page_handle_props[OF inv this] show ?thesis by blast
next
  case False
  with res have "create_new_page_handle h = (Inl e, h1)"
    by (simp add: create_page_handle_def)
  from create_new_page_handle_fail[OF inv this] show ?thesis .
qed

lemma create_page_handle_ok:
  assumes inv: "rm_inv h" and res: "create_page_handle h = (Inr f, h1)"
  defines "p \<equiv> (if first_free_page_no (file_hdr h) \<noteq> RM_NO_PAGE
                 then first_free_page_no (file_hdr h) else num_pages (file_hdr h))"
  shows "holding h1 f p \<and> (frame_dirty h1 f \<or> coherent (buffer_pool_manager h1)) \<and>
         fh_fd h1 = fh_fd h \<and> 0 < p \<and>
         file_hdr h1 = (if first_free_page_no (file_hdr h) \<noteq> RM_NO_PAGE then file_hdr h
                        else (file_hdr h)\<lparr>num_pages := num_pages (file_hdr h) + 1\<rparr>) \<and>
         page_of h1 p = (if first_free_page_no (file_hdr h) \<noteq> RM_NO_PAGE then page_of h p
                         else empty_data_page) \<and>
         (\<forall>q. q \<noteq> p \<longrightarrow> page_of h1 q = page_of h q) \<and>
         length (pages (buffer_pool_manager h1)) = length (pages (buffer_pool_manager h)) \<and>
         (idle h \<longrightarrow> idle_but f h1)"
proof (cases "first_free_page_no (file_hdr h) \<noteq> RM_NO_PAGE")
  case True
  with res have "fetch_page_handle h (first_free_page_no (file_hdr h)) = (Inr f, h1)"
    by (simp add: create_page_handle_def)
  from fetch_page_handle_props[OF inv this] True show ?thesis
    by (simp add: p_def rm_inv_def)
next
  case False
  with res have "create_new_page_handle h = (Inr f, h1)"
    by (simp add: create_page_handle_def)
  from create_new_page_handle_ok[OF inv this] False inv show ?thesis
    by (simp add: p_def rm_inv_def rm_base_def)
qed

lemma insert_record_err:
  assumes inv: "rm_inv h" and res: "insert_record h buf = (Inl e, h')"
  shows "rm_inv h' \<and> fh_fd h' = fh_fd h \<and>
         (idle h \<longrightarrow> idle h' \<or> h' = snd (create_page_handle h)) \<and>
         (file_hdr h' = file_hdr h \<and> (\<forall>q. page_of h' q = page_of h q) \<or>
          first_free_page_no (file_hdr h) = RM_NO_PAGE \<and>
          file_hdr h' = (file_hdr h)\<lparr>num_pages := num_pages (file_hdr h) + 1\<rparr> \<and>
          page_of h' (num_pages (file_hdr h)) = empty_data_page \<and>
          (\<forall>q. q \<noteq> num_pages (file_hdr h) \<longrightarrow> page_of h' q = page_of h q))"
proof (cases "create_page_handle h")
  case (Pair r1 h1)
  show ?thesis
  proof (cases r1)
    case (Inl e1)
    with Pair res have "h' = h1" by (simp add: insert_record_def)
    with create_page_handle_fail[OF inv Pair[unfolded Inl]] Pair show ?thesis by simp
  next
    case (Inr f)
    define p where "p = (if first_free_page_no (file_hdr h) \<noteq> RM_NO_PAGE
                 then first_free_page_no (file_hdr h) else num_pages (file_hdr h))"
    note C = create_page_handle_ok[OF inv Pair[unfolded Inr], folded p_def]
    have ho: "holding h1 f p" and cl: "frame_dirty h1 f \<or> coherent (buffer_pool_manager h1)"
      using C by simp_all
    from Pair Inr res have h': "h' = rm_unpin h1 f False"
      by (auto simp: insert_record_def Let_def split: if_splits)
    note U = rm_unpin_props[OF ho cl, of False]
    have "idle h \<longrightarrow> idle h'" using C U(3) by (simp add: h')
    moreover have "rm_inv h'" "fh_fd h' = fh_fd h" using U C by (simp_all add: h')
    moreover have "file_hdr h' = file_hdr h \<and> (\<forall>q. page_of h' q = page_of h q) \<or>
          first_free_page_no (file_hdr h) = RM_NO_PAGE \<and>
          file_hdr h' = (file_hdr h)\<lparr>num_pages := num_pages (file_hdr h) + 1\<rparr> \<and>
          page_of h' (num_pages (file_hdr h)) = empty_data_page \<and>
          (\<forall>q. q \<noteq> num_pages (file_hdr h) \<longrightarrow> page_of h' q = page_of h q)"
    proof (cases "first_free_page_no (file_hdr h) \<noteq> RM_NO_PAGE")
      case True
      then have "\<forall>q. page_of h1 q = page_of h q" using C by (metis (full_types))
      with True C U(2) show ?thesis by (simp add: h')
    next
      case False
      with C U(2) show ?thesis by (simp add: h' p_def)
    qed
    ultimately show ?thesis by simp
  qed
qed

lemma insert_record_ok:
  assumes inv: "rm_inv h" and res: "insert_record h buf = (Inr rid, h')"
  defines "p \<equiv> (if first_free_page_no (file_hdr h) \<noteq> RM_NO_PAGE
                 then first_free_page_no (file_hdr h) else num_pages (file_hdr h))"
    and "D \<equiv> (if first_free_page_no (file_hdr h) \<noteq> RM_NO_PAGE
                 then page_of h (first_free_page_no (file_hdr h)) else empty_data_page)"
  shows "rm_inv h' \<and> fh_fd h' = fh_fd h \<and> rid_page_no rid = p \<and>
         0 < p \<and> p < num_pages (file_hdr h') \<and>
         0 \<le> slot_no rid \<and> slot_no rid < num_records_per_page (file_hdr h) \<and>
         \<not> bitmap D (nat (slot_no rid)) \<and>
         (\<forall>i. 0 \<le> i \<and> i < slot_no rid \<longrightarrow> bitmap D (nat i)) \<and>
         num_records (page_hdr D) < num_records_per_page (file_hdr h) \<and>
         file_hdr h' = (file_hdr h)
           \<lparr>num_pages := (if first_free_page_no (file_hdr h) \<noteq> RM_NO_PAGE
                           then num_pages (file_hdr h) else num_pages (file_hdr h) + 1),
            first_free_page_no :=
              (if num_records (page_hdr D) + 1 = num_records_per_page (file_hdr h)
                  \<and> first_free_page_no (file_hdr h) = p
               then next_free_page_no (page_hdr D)
               else first_free_page_no (file_hdr h))\<rparr> \<and>
         page_of h' p =
           (memcpy_to_slot D (slot_no rid) buf (nat (record_size (file_hdr h))))
           \<lparr>bitmap := Bitmap_set (bitmap D) (slot_no rid),
            page_hdr := (page_hdr D)\<lparr>num_records := num_records (page_hdr D) + 1\<rparr>\<rparr> \<and>
         (\<forall>q. q \<noteq> p \<longrightarrow> page_of h' q = page_of h q) \<and>
         cached h' p \<and> page_dirty h' p \<and> (idle h \<longrightarrow> idle h') \<and>
         length (pages (buffer_pool_manager h')) = length (pages (buffer_pool_manager h))"
proof (cases "create_page_handle h")
  case (Pair r1 h1)
  from res Pair obtain f where r1: "r1 = Inr f"
    by (cases r1) (auto simp: insert_record_def)
  let ?npp = "num_records_per_page (file_hdr h)"
  let ?n = "nat (record_size (file_hdr h))"
  note C = create_page_handle_ok[OF inv Pair[unfolded r1], folded p_def]
  have ho: "holding h1 f p" and fd: "fh_fd h1 = fh_fd h" and p0: "0 < p"
    and hd: "file_hdr h1 = (if first_free_page_no (file_hdr h) \<noteq> RM_NO_PAGE then file_hdr h
                        else (file_hdr h)\<lparr>num_pages := num_pages (file_hdr h) + 1\<rparr>)"
    and V: "page_of h1 p = D" "\<And>q. q \<noteq> p \<Longrightarrow> page_of h1 q = page_of h q"
    and L: "length (pages (buffer_pool_manager h1)) = length (pages (buffer_pool_manager h))"
    and I: "idle h \<longrightarrow> idle_but f h1"
    using C by (simp_all add: D_def p_def)
  have hdf: "num_records_per_page (file_hdr h1) = ?npp" "record_size (file_hdr h1) = record_size (file_hdr h)"
    "first_free_page_no (file_hdr h1) = first_free_page_no (file_hdr h)"
    by (simp_all add: hd)
  have fdat: "frame_data h1 f = D" "frame_page_id h1 f = \<lparr>fd = fh_fd h, page_no = p\<rparr>"
    using holding_frame[OF ho] V fd by simp_all
  define s where "s = first_bit False (bitmap D) ?npp"
  have ok: "s \<noteq> ?npp" "num_records (page_hdr D) < ?npp"
    using res Pair r1 hdf fdat by (auto simp: insert_record_def Let_def s_def split: if_splits)
  from next_bit_props[of False "bitmap D" ?npp "-1" s] ok(1)
  have sp: "0 \<le> s" "s < ?npp" "\<not> bitmap D (nat s)" "\<forall>i. 0 \<le> i \<and> i < s \<longrightarrow> bitmap D (nat i)"
    by (auto simp: s_def first_bit_def)
  define h2 where "h2 = set_data h1 f (\<lambda>d. memcpy_to_slot d s buf ?n)"
  define h3 where "h3 = set_data h2 f (\<lambda>d. d\<lparr>bitmap := Bitmap_set (bitmap d) s\<rparr>)"
  define h4 where "h4 = set_data h3 f
     (\<lambda>d. d\<lparr>page_hdr := (page_hdr d)\<lparr>num_records := num_records (page_hdr d) + 1\<rparr>\<rparr>)"
  define h5 where "h5 = rm_mark_dirty h4 f"
  define adv where "adv \<longleftrightarrow> num_records (page_hdr D) + 1 = ?npp \<and> first_free_page_no (file_hdr h) = p"
  define h5' where "h5' = h5\<lparr>file_hdr := (file_hdr h5)\<lparr>first_free_page_no := next_free_page_no (page_hdr D)\<rparr>\<rparr>"
  define h6 where "h6 = (if adv
     then h5'\<lparr>buffer_pool_manager := (buffer_pool_manager h5')
                \<lparr>disk_manager := write_hdr (disk_manager (buffer_pool_manager h5'))
                     (fh_fd h5') (file_hdr h5')\<rparr>\<rparr>
     else h5)"
  note S2 = holding_set_data[OF ho, of "\<lambda>d. memcpy_to_slot d s buf ?n", folded h2_def]
  note S3 = holding_set_data[OF S2(1), of "\<lambda>d. d\<lparr>bitmap := Bitmap_set (bitmap d) s\<rparr>", folded h3_def]
  note S4 = holding_set_data[OF S3(1),
      of "\<lambda>d. d\<lparr>page_hdr := (page_hdr d)\<lparr>num_records := num_records (page_hdr d) + 1\<rparr>\<rparr>",
      folded h4_def]
  note S5 = holding_mark_dirty[OF S4(1), folded h5_def]
  have hdr5: "file_hdr h5 = file_hdr h1" "fh_fd h5 = fh_fd h"
    by (simp_all add: h5_def h4_def h3_def h2_def fd)
  have V5: "page_of h5 p = (memcpy_to_slot D s buf ?n)
           \<lparr>bitmap := Bitmap_set (bitmap D) s,
            page_hdr := (page_hdr D)\<lparr>num_records := num_records (page_hdr D) + 1\<rparr>\<rparr>"
    "\<And>q. q \<noteq> p \<Longrightarrow> page_of h5 q = page_of h q"
    using S5(2) S4(2) S3(2) S2(2) V by (simp_all add: memcpy_to_slot_def)
  have fd5: "frame_data h5 f = page_of h5 p" "frame_page_id h5 f = \<lparr>fd = fh_fd h5, page_no = p\<rparr>"
    using holding_frame[OF S5(1)] by simp_all
  have Q: "num_records (page_hdr (frame_data h5 f)) = num_records (page_hdr D) + 1"
    "next_free_page_no (page_hdr (frame_data h5 f)) = next_free_page_no (page_hdr D)"
    "page_no (frame_page_id h5 f) = p"
    using fd5 V5(1) by (simp_all add: memcpy_to_slot_def)
  have I5: "idle h \<longrightarrow> idle_but f h5"
    using I by (auto simp: h5_def h4_def h3_def h2_def
        intro!: idle_but_mark_dirty idle_but_set_data)
  have L5: "length (pages (buffer_pool_manager h5)) = length (pages (buffer_pool_manager h))"
    using L by (simp add: h5_def h4_def h3_def h2_def)
  have H5': "holding h5' f p" "\<And>q. page_of h5' q = page_of h5 q" "frame_dirty h5' f"
    using holding_file_hdr[OF S5(1),
        of "(file_hdr h5)\<lparr>first_free_page_no := next_free_page_no (page_hdr D)\<rparr>"] S5(3)
    by (simp_all add: h5'_def)
  have H6: "holding h6 f p" "\<And>q. page_of h6 q = page_of h5 q" "frame_dirty h6 f"
    using holding_write_hdr[OF H5'(1), of "fh_fd h5'" "file_hdr h5'"] H5' S5
    by (simp_all add: h6_def)
  have hdr6: "file_hdr h6 = (file_hdr h1)\<lparr>first_free_page_no :=
       (if adv then next_free_page_no (page_hdr D) else first_free_page_no (file_hdr h))\<rparr>"
    "fh_fd h6 = fh_fd h"
    using hdr5 hdf by (simp_all add: h6_def h5'_def)
  have I6: "idle h \<longrightarrow> idle_but f h6"
    using I5 by (simp add: h6_def h5'_def idle_but_def)
  have L6: "length (pages (buffer_pool_manager h6)) = length (pages (buffer_pool_manager h))"
    using L5 by (simp add: h6_def h5'_def)
  have pid6: "frame_page_id h6 f = \<lparr>fd = fh_fd h, page_no = p\<rparr>"
    using holding_frame(2)[OF H6(1)] hdr6 by simp
  have out: "rid = \<lparr>rid_page_no = p, slot_no = s\<rparr>" "h' = rm_unpin h6 f True"
  proof -
    have E: "insert_record h buf =
      (Inr \<lparr>rid_page_no = page_no (frame_page_id h6 f), slot_no = s\<rparr>, rm_unpin h6 f True)"
      using Pair r1 ok hdf fdat hdr5
        Q[unfolded h5_def h4_def h3_def h2_def]
      by (simp add: insert_record_def Let_def s_def[symmetric] h6_def h5'_def h5_def h4_def
          h3_def h2_def adv_def)
    with res pid6 show "rid = \<lparr>rid_page_no = p, slot_no = s\<rparr>" "h' = rm_unpin h6 f True"
      by simp_all
  qed
  note U = unpin_written[OF H6(1) H6(3)]
  have pn: "p < num_pages (file_hdr h')"
    using holding_frame(4)[OF H6(1)] U by (simp add: out)
  have fh: "file_hdr h' = (file_hdr h)
           \<lparr>num_pages := (if first_free_page_no (file_hdr h) \<noteq> RM_NO_PAGE
                           then num_pages (file_hdr h) else num_pages (file_hdr h) + 1),
            first_free_page_no :=
              (if num_records (page_hdr D) + 1 = ?npp \<and> first_free_page_no (file_hdr h) = p
               then next_free_page_no (page_hdr D)
               else first_free_page_no (file_hdr h))\<rparr>"
    using U hdr6 hd by (simp add: out adv_def)
  show ?thesis
    using U H6(2) V5 hdr6(2) I6 L6 p0 sp ok(2) pn fh by (simp add: out)
qed

lemma popcount_set:
  assumes "0 \<le> s" and "s < n"
  shows "popcount (Bitmap_set bm s) n = popcount bm n + (if bm (nat s) then 0 else 1)"
proof -
  have split: "[0..<nat n] = [0..<nat s] @ nat s # [Suc (nat s)..<nat n]"
    using assms by (metis upt_conv_Cons upt_add_eq_append le0 nat_less_eq_zless
        le_add_diff_inverse less_imp_le_nat)
  have a: "filter ((bm(nat s := True))) [0..<nat s] = filter bm [0..<nat s]"
    by (rule filter_cong) auto
  have b: "filter ((bm(nat s := True))) [Suc (nat s)..<nat n] = filter bm [Suc (nat s)..<nat n]"
    by (rule filter_cong) auto
  show ?thesis
    unfolding popcount_def Bitmap_set_def split by (simp add: a b)
qed

lemma popcount_reset:
  assumes "0 \<le> s" and "s < n" and "bm (nat s)"
  shows "popcount (Bitmap_reset bm s) n = popcount bm n - 1"
proof -
  have split: "[0..<nat n] = [0..<nat s] @ nat s # [Suc (nat s)..<nat n]"
    using assms by (metis upt_conv_Cons upt_add_eq_append le0 nat_less_eq_zless
        le_add_diff_inverse less_imp_le_nat)
  have a: "filter ((bm(nat s := False))) [0..<nat s] = filter bm [0..<nat s]"
    by (rule filter_cong) auto
  have b: "filter ((bm(nat s := False))) [Suc (nat s)..<nat n] = filter bm [Suc (nat s)..<nat n]"
    by (rule filter_cong) auto
  show ?thesis
    unfolding popcount_def Bitmap_reset_def split using assms(3) by (simp add: a b)
qed

lemma popcount_empty: "popcount (\<lambda>_. False) n = 0"
  by (simp add: popcount_def)

section \<open>New files and evaluation on examples\<close>

lemma bpm_wf_init: "bpm_wf (BufferPoolManager_init n d)"
  by (auto simp: bpm_wf_def BufferPoolManager_init_def LRUReplacer_init_def fresh_page_def
      bound_def)

lemma new_file_inv:
  assumes "num_pages hdr = 1" and "fd2pageno d f = 1"
  shows "rm_inv (new_file n d f hdr)" and "counts_ok (new_file n d f hdr)"
    and "idle (new_file n d f hdr)"
proof -
  have "rm_base (new_file n d f hdr)"
    using assms bpm_wf_init[of n d]
    by (simp add: rm_base_def new_file_def) (simp add: BufferPoolManager_init_def)
  moreover have "coherent (BufferPoolManager_init n d)"
    by (simp add: coherent_def BufferPoolManager_init_def)
  ultimately show "rm_inv (new_file n d f hdr)"
    by (simp add: rm_inv_def new_file_def)
  show "counts_ok (new_file n d f hdr)"
    using assms by (auto simp: counts_ok_def new_file_def RM_FIRST_RECORD_PAGE_def)
  show "idle (new_file n d f hdr)"
    by (simp add: idle_def new_file_def BufferPoolManager_init_def)
qed

lemmas eval_defs = insert_record_def create_page_handle_def create_new_page_handle_def new_page_def
  find_victim_page_def allocate_page_def update_page_def set_page_def set_data_def
  rm_mark_dirty_def mark_dirty_def rm_unpin_def unpin_page_def frame_data_def frame_page_id_def
  first_bit_def next_bit_def Bitmap_set_def Bitmap_is_set_def Bitmap_reset_def Bitmap_init_def
  memcpy_to_slot_def memcpy_from_slot_def new_file_def new_file_hdr_def BufferPoolManager_init_def
  fresh_page_def empty_disk_def zero_page_def INVALID_PAGE_ID_def RM_NO_PAGE_def
  RM_FILE_HDR_PAGE_def RM_FIRST_RECORD_PAGE_def LRUReplacer_init_def pin_def unpin_def victim_def
  fetch_page_handle_def fetch_page_def read_page_def write_page_def write_hdr_def
  get_record_def insert_record_at_def delete_record_def update_record_def release_page_handle_def
  example_file_def Let_def upto.simps upt_rec

lemma example_file_inv:
  "rm_inv example_file" "counts_ok example_file" "idle example_file"
  unfolding example_file_def
  by (rule new_file_inv; simp add: new_file_hdr_def empty_disk_def)+

lemma memcpy_round_trip:
  assumes "length buf = n"
  shows "memcpy_from_slot ((memcpy_to_slot d s buf n)\<lparr>bitmap := bm, page_hdr := ph\<rparr>) s n = buf"
proof -
  have "map (\<lambda>j. if j < n then buf ! j else slots d (nat s) j) [0..<n] = map ((!) buf) [0..<n]"
    by (rule map_cong) auto
  moreover have "map ((!) buf) [0..<n] = buf" using assms map_nth[of buf] by simp
  ultimately show ?thesis by (simp add: memcpy_from_slot_def memcpy_to_slot_def)
qed


lemma example_file1_inv:
  "rm_inv example_file1" "counts_ok example_file1" "idle example_file1"
  unfolding example_file1_def
  by (rule new_file_inv; simp add: new_file_hdr_def empty_disk_def)+


section \<open>The record count of a page\<close>

lemma count_ok_cong:
  "num_records (page_hdr d') = num_records (page_hdr d) \<Longrightarrow> bitmap d' = bitmap d \<Longrightarrow>
   num_records_per_page hdr' = num_records_per_page hdr \<Longrightarrow>
   count_ok hdr' d' = count_ok hdr d"
  by (simp add: count_ok_def)

lemma counts_okI:
  assumes "\<And>q. 1 \<le> q \<Longrightarrow> q < num_pages (file_hdr h) \<Longrightarrow> count_ok (file_hdr h) (page_of h q)"
  shows "counts_ok h"
  using assms by (simp add: counts_ok_def RM_FIRST_RECORD_PAGE_def)

lemma counts_okD:
  "counts_ok h \<Longrightarrow> 1 \<le> q \<Longrightarrow> q < num_pages (file_hdr h) \<Longrightarrow> count_ok (file_hdr h) (page_of h q)"
  by (simp add: counts_ok_def RM_FIRST_RECORD_PAGE_def)

lemma counts_ok_unchanged:
  assumes "counts_ok h" and "file_hdr h' = file_hdr h" and "\<forall>q. page_of h' q = page_of h q"
  shows "counts_ok h'"
  using assms by (simp add: counts_ok_def)

lemma insert_record_counts:
  assumes inv: "rm_inv h" and cnt: "counts_ok h"
  shows "rm_inv (snd (insert_record h buf)) \<and> counts_ok (snd (insert_record h buf))"
proof (cases "insert_record h buf")
  case (Pair r h')
  show ?thesis
  proof (cases r)
    case (Inl e)
    note E = insert_record_err[OF inv Pair[unfolded Inl]]
    have "counts_ok h'"
    proof (rule counts_okI)
      fix q assume q: "1 \<le> q" "q < num_pages (file_hdr h')"
      from E have "file_hdr h' = file_hdr h \<and> (\<forall>q. page_of h' q = page_of h q) \<or>
          first_free_page_no (file_hdr h) = RM_NO_PAGE \<and>
          file_hdr h' = (file_hdr h)\<lparr>num_pages := num_pages (file_hdr h) + 1\<rparr> \<and>
          page_of h' (num_pages (file_hdr h)) = empty_data_page \<and>
          (\<forall>q. q \<noteq> num_pages (file_hdr h) \<longrightarrow> page_of h' q = page_of h q)" by simp
      then show "count_ok (file_hdr h') (page_of h' q)"
      proof
        assume "file_hdr h' = file_hdr h \<and> (\<forall>q. page_of h' q = page_of h q)"
        then show ?thesis using counts_okD[OF cnt q(1)] q(2) by simp
      next
        assume a: "first_free_page_no (file_hdr h) = RM_NO_PAGE \<and>
          file_hdr h' = (file_hdr h)\<lparr>num_pages := num_pages (file_hdr h) + 1\<rparr> \<and>
          page_of h' (num_pages (file_hdr h)) = empty_data_page \<and>
          (\<forall>q. q \<noteq> num_pages (file_hdr h) \<longrightarrow> page_of h' q = page_of h q)"
        show ?thesis
        proof (cases "q = num_pages (file_hdr h)")
          case True
          then show ?thesis using a
            by (simp add: count_ok_def empty_data_page_def popcount_empty)
        next
          case False
          then have "q < num_pages (file_hdr h)" using q(2) a by simp
          from counts_okD[OF cnt q(1) this] a False show ?thesis
            by (simp add: count_ok_def)
        qed
      qed
    qed
    then show ?thesis using E Pair by simp
  next
    case (Inr rid)
    define p where "p = (if first_free_page_no (file_hdr h) \<noteq> RM_NO_PAGE
                 then first_free_page_no (file_hdr h) else num_pages (file_hdr h))"
    define D where "D = (if first_free_page_no (file_hdr h) \<noteq> RM_NO_PAGE
                 then page_of h (first_free_page_no (file_hdr h)) else empty_data_page)"
    note O = insert_record_ok[OF inv Pair[unfolded Inr], folded p_def D_def]
    let ?npp = "num_records_per_page (file_hdr h)"
    have s: "0 \<le> slot_no rid" "slot_no rid < ?npp" "\<not> bitmap D (nat (slot_no rid))"
      and p0: "0 < p" and pn: "p < num_pages (file_hdr h')"
      and V: "page_of h' p = (memcpy_to_slot D (slot_no rid) buf (nat (record_size (file_hdr h))))
           \<lparr>bitmap := Bitmap_set (bitmap D) (slot_no rid),
            page_hdr := (page_hdr D)\<lparr>num_records := num_records (page_hdr D) + 1\<rparr>\<rparr>"
        "\<And>q. q \<noteq> p \<Longrightarrow> page_of h' q = page_of h q"
      using O by blast+
    have fh: "file_hdr h' = (file_hdr h)
           \<lparr>num_pages := (if first_free_page_no (file_hdr h) \<noteq> RM_NO_PAGE
                           then num_pages (file_hdr h) else num_pages (file_hdr h) + 1),
            first_free_page_no :=
              (if num_records (page_hdr D) + 1 = num_records_per_page (file_hdr h)
                  \<and> first_free_page_no (file_hdr h) = p
               then next_free_page_no (page_hdr D)
               else first_free_page_no (file_hdr h))\<rparr>"
      using O by blast
    have npp: "num_records_per_page (file_hdr h') = ?npp"
      and np: "num_pages (file_hdr h') = (if first_free_page_no (file_hdr h) \<noteq> RM_NO_PAGE
                           then num_pages (file_hdr h) else num_pages (file_hdr h) + 1)"
      by (simp_all add: fh)
    have cD: "count_ok (file_hdr h) D"
    proof (cases "first_free_page_no (file_hdr h) \<noteq> RM_NO_PAGE")
      case True
      then have "D = page_of h p" "p < num_pages (file_hdr h)" using pn np by (simp_all add: D_def p_def)
      then show ?thesis using counts_okD[OF cnt, of p] p0 by simp
    next
      case False
      then show ?thesis by (simp add: D_def count_ok_def empty_data_page_def popcount_empty)
    qed
    have "counts_ok h'"
    proof (rule counts_okI)
      fix q assume q: "1 \<le> q" "q < num_pages (file_hdr h')"
      show "count_ok (file_hdr h') (page_of h' q)"
      proof (cases "q = p")
        case True
        then show ?thesis using V(1) cD s popcount_set[OF s(1,2), of "bitmap D"]
          by (simp add: count_ok_def npp)
      next
        case False
        then have "q < num_pages (file_hdr h)" using q(2) np by (simp add: p_def split: if_splits)
        from counts_okD[OF cnt q(1) this] V(2)[OF False] show ?thesis
          by (simp add: count_ok_def npp)
      qed
    qed
    then show ?thesis using O Pair by simp
  qed
qed

lemma insert_record_at_counts:
  assumes inv: "rm_inv h" and cnt: "counts_ok h"
  shows "rm_inv (snd (insert_record_at h rid buf)) \<and> counts_ok (snd (insert_record_at h rid buf))"
proof (cases "insert_record_at h rid buf")
  case (Pair r h')
  show ?thesis
  proof (cases r)
    case (Inl e)
    note E = insert_record_at_err[OF inv Pair[unfolded Inl]]
    then show ?thesis using counts_ok_unchanged[OF cnt, of h'] Pair by simp
  next
    case (Inr u)
    note O = insert_record_at_ok[OF inv Pair[unfolded Inr]]
    let ?p = "rid_page_no rid" and ?s = "slot_no rid"
    let ?D = "page_of h ?p"
    have s: "0 \<le> ?s" "?s < num_records_per_page (file_hdr h)" and p: "0 < ?p" "?p < num_pages (file_hdr h)"
      and hd: "file_hdr h' = file_hdr h"
      using O by simp_all
    have "counts_ok h'"
    proof (rule counts_okI)
      fix q assume q: "1 \<le> q" "q < num_pages (file_hdr h')"
      show "count_ok (file_hdr h') (page_of h' q)"
      proof (cases "q = ?p")
        case True
        have "count_ok (file_hdr h) ?D" using counts_okD[OF cnt, of ?p] p by simp
        then show ?thesis using True O popcount_set[OF s, of "bitmap ?D"]
          by (simp add: count_ok_def hd Bitmap_is_set_def)
      next
        case False
        with O have "page_of h' q = page_of h q" by simp
        then show ?thesis using counts_okD[OF cnt q(1)] q(2) hd by simp
      qed
    qed
    then show ?thesis using O Pair by simp
  qed
qed

lemma delete_record_counts:
  assumes inv: "rm_inv h" and cnt: "counts_ok h"
  shows "rm_inv (snd (delete_record h rid)) \<and> counts_ok (snd (delete_record h rid))"
proof (cases "delete_record h rid")
  case (Pair r h')
  show ?thesis
  proof (cases r)
    case (Inl e)
    note E = delete_record_err[OF inv Pair[unfolded Inl]]
    then show ?thesis using counts_ok_unchanged[OF cnt, of h'] Pair by simp
  next
    case (Inr u)
    note O = delete_record_ok[OF inv Pair[unfolded Inr]]
    let ?p = "rid_page_no rid" and ?s = "slot_no rid"
    let ?D = "page_of h ?p"
    have s: "0 \<le> ?s" "?s < num_records_per_page (file_hdr h)" "bitmap ?D (nat ?s)"
      and p: "0 < ?p" "?p < num_pages (file_hdr h)"
      and hd: "num_pages (file_hdr h') = num_pages (file_hdr h)"
        "num_records_per_page (file_hdr h') = num_records_per_page (file_hdr h)"
      using O by (simp_all add: Bitmap_is_set_def)
    have "counts_ok h'"
    proof (rule counts_okI)
      fix q assume q: "1 \<le> q" "q < num_pages (file_hdr h')"
      show "count_ok (file_hdr h') (page_of h' q)"
      proof (cases "q = ?p")
        case True
        have "count_ok (file_hdr h) ?D" using counts_okD[OF cnt, of ?p] p by simp
        then show ?thesis using True O popcount_reset[of ?s "num_records_per_page (file_hdr h)" "bitmap ?D", OF s]
          by (simp add: count_ok_def hd)
      next
        case False
        with O have "page_of h' q = page_of h q" by simp
        then show ?thesis using counts_okD[OF cnt q(1)] q(2) hd by (simp add: count_ok_def)
      qed
    qed
    then show ?thesis using O Pair by simp
  qed
qed

lemma update_record_counts:
  assumes inv: "rm_inv h" and cnt: "counts_ok h"
  shows "rm_inv (snd (update_record h rid buf)) \<and> counts_ok (snd (update_record h rid buf))"
proof (cases "update_record h rid buf")
  case (Pair r h')
  show ?thesis
  proof (cases r)
    case (Inl e)
    note E = update_record_err[OF inv Pair[unfolded Inl]]
    then show ?thesis using counts_ok_unchanged[OF cnt, of h'] Pair by simp
  next
    case (Inr u)
    note O = update_record_ok[OF inv Pair[unfolded Inr]]
    let ?p = "rid_page_no rid"
    have p: "0 < ?p" "?p < num_pages (file_hdr h)" and hd: "file_hdr h' = file_hdr h"
      using O by simp_all
    have "counts_ok h'"
    proof (rule counts_okI)
      fix q assume q: "1 \<le> q" "q < num_pages (file_hdr h')"
      show "count_ok (file_hdr h') (page_of h' q)"
      proof (cases "q = ?p")
        case True
        have "count_ok (file_hdr h) (page_of h ?p)" using counts_okD[OF cnt, of ?p] p by simp
        then show ?thesis using True O by (simp add: count_ok_def hd memcpy_to_slot_def)
      next
        case False
        with O have "page_of h' q = page_of h q" by simp
        then show ?thesis using counts_okD[OF cnt q(1)] q(2) hd by simp
      qed
    qed
    then show ?thesis using O Pair by simp
  qed
qed


section \<open>The scan\<close>

lemma next_bit_filter:
  assumes "next_bit True bm n s = s1"
  shows "(s1 < n \<longrightarrow> s < s1 \<and>
            filter (\<lambda>i. bm (nat i)) [s + 1..n - 1] = s1 # filter (\<lambda>i. bm (nat i)) [s1 + 1..n - 1]) \<and>
         (\<not> s1 < n \<longrightarrow> filter (\<lambda>i. bm (nat i)) [s + 1..n - 1] = [])"
proof -
  from next_bit_props[OF assms]
  have "(s1 = n \<and> (\<forall>i. s < i \<and> i < n \<longrightarrow> \<not> bm (nat i))) \<or>
        (s < s1 \<and> s1 < n \<and> bm (nat s1) \<and> (\<forall>i. s < i \<and> i < s1 \<longrightarrow> \<not> bm (nat i)))"
    by simp
  then show ?thesis
  proof
    assume a: "s1 = n \<and> (\<forall>i. s < i \<and> i < n \<longrightarrow> \<not> bm (nat i))"
    then have "filter (\<lambda>i. bm (nat i)) [s + 1..n - 1] = []"
      by (auto simp: filter_empty_conv)
    with a show ?thesis by simp
  next
    assume a: "s < s1 \<and> s1 < n \<and> bm (nat s1) \<and> (\<forall>i. s < i \<and> i < s1 \<longrightarrow> \<not> bm (nat i))"
    then have sp: "[s + 1..n - 1] = [s + 1..s1 - 1] @ s1 # [s1 + 1..n - 1]"
      using upto_split3[of "s + 1" s1 "n - 1"] by simp
    have "filter (\<lambda>i. bm (nat i)) [s + 1..s1 - 1] = []"
      using a by (auto simp: filter_empty_conv)
    with a show ?thesis by (simp add: sp)
  qed
qed

lemma fetch_page_handle_idle:
  assumes inv: "rm_inv h" and i: "idle h" and ne: "pages (buffer_pool_manager h) \<noteq> []"
    and p: "0 < p" "p < num_pages (file_hdr h)"
  shows "\<exists>f h1. fetch_page_handle h p = (Inr f, h1)"
proof (cases "fetch_page_handle h p")
  case (Pair r h1)
  show ?thesis
  proof (cases r)
    case (Inl e)
    from fetch_page_handle_props[OF inv Pair] Inl p
    have "free_list (buffer_pool_manager h) = []"
      "LRUlist (replacer (buffer_pool_manager h)) = []" by auto
    moreover have "0 < length (pages (buffer_pool_manager h))" using ne by simp
    ultimately have False using i unfolding idle_def by fastforce
    then show ?thesis ..
  next
    case (Inr f)
    with Pair show ?thesis by simp
  qed
qed

lemma rids_after_cong:
  "file_hdr h' = file_hdr h \<Longrightarrow> (\<forall>q. page_of h' q = page_of h q) \<Longrightarrow>
     rids_after h' = rids_after h \<and> live_rids h' = live_rids h"
  by (simp add: rids_after_def live_rids_def rids_on_def fun_eq_iff)

lemma scan_end_not_page: "1 \<le> rid_page_no r \<Longrightarrow> r \<noteq> scan_end \<and> \<not> is_end r"
  by (auto simp: scan_end_def is_end_def RM_NO_PAGE_def)

lemma next_loop_spec:
  assumes "scannable h" and "1 \<le> rid_page_no r"
  shows "\<exists>r1 h1. next_loop (file_hdr h) h r = (Inr r1, h1) \<and> scannable h1 \<and>
           file_hdr h1 = file_hdr h \<and> (\<forall>q. page_of h1 q = page_of h q) \<and>
           rids_after h r = (if r1 = scan_end then [] else r1 # rids_after h r1) \<and>
           (r1 \<noteq> scan_end \<longrightarrow> 1 \<le> rid_page_no r1)"
  using assms
proof (induction "nat (num_pages (file_hdr h) - rid_page_no r)" arbitrary: h r)
  case 0
  then have "\<not> rid_page_no r < num_pages (file_hdr h)" by simp
  then have "next_loop (file_hdr h) h r = (Inr scan_end, h)" "rids_after h r = []"
    by (simp_all add: scan_end_def rids_after_def)
  with 0 show ?case by simp
next
  case (Suc k)
  let ?p = "rid_page_no r" and ?s = "slot_no r"
  let ?N = "num_pages (file_hdr h)" and ?npp = "num_records_per_page (file_hdr h)"
  have p: "?p < ?N" "1 \<le> ?p" using Suc by simp_all
  have inv: "rm_inv h" and idl: "idle h" and ne: "pages (buffer_pool_manager h) \<noteq> []"
    using Suc.prems p by (simp_all add: scannable_def)
  from fetch_page_handle_idle[OF inv idl ne, of ?p] p obtain f h1
    where f: "fetch_page_handle h ?p = (Inr f, h1)" by auto
  note F = fetch_page_handle_props[OF inv f]
  note U = fetch_unpin_clean[OF inv f]
  define h2 where "h2 = rm_unpin h1 f False"
  have ho: "holding h1 f ?p" and V1: "\<And>q. page_of h1 q = page_of h q"
    using F by simp_all
  have fdat: "frame_data h1 f = page_of h ?p" using holding_frame(1)[OF ho] V1 by simp
  have "length (pages (buffer_pool_manager h2)) = length (pages (buffer_pool_manager h))"
    using U by (simp add: h2_def)
  then have ne2: "pages (buffer_pool_manager h2) \<noteq> []" using ne by (metis length_0_conv)
  have sc2: "scannable h2" and hd2: "file_hdr h2 = file_hdr h"
    and V2: "\<forall>q. page_of h2 q = page_of h q"
    using U ne2 idl by (simp_all add: scannable_def h2_def)
  define s1 where "s1 = next_bit True (bitmap (page_of h ?p)) ?npp ?s"
  note NB = next_bit_filter[of "bitmap (page_of h ?p)" ?npp ?s s1, OF s1_def[symmetric]]
  show ?case
  proof (cases "s1 < ?npp")
    case True
    let ?r1 = "r\<lparr>slot_no := s1\<rparr>"
    have nl: "next_loop (file_hdr h) h r = (Inr ?r1, h2)"
      using p f fdat True
      by (subst next_loop.simps) (simp add: RM_FIRST_RECORD_PAGE_def s1_def Let_def h2_def)
    have "rids_on h ?p (?s + 1) = ?r1 # rids_on h ?p (s1 + 1)"
      using NB True by (simp add: rids_on_def)
    then have "rids_after h r = ?r1 # rids_after h ?r1"
      using p by (simp add: rids_after_def)
    moreover have "?r1 \<noteq> scan_end" "1 \<le> rid_page_no ?r1"
      using p scan_end_not_page[of ?r1] by simp_all
    ultimately show ?thesis using nl sc2 hd2 V2 by simp
  next
    case False
    let ?r' = "\<lparr>rid_page_no = ?p + 1, slot_no = -1\<rparr>"
    have nl: "next_loop (file_hdr h) h r = next_loop (file_hdr h2) h2 ?r'"
      using p f fdat False hd2
      by (subst next_loop.simps) (simp add: RM_FIRST_RECORD_PAGE_def s1_def Let_def h2_def)
    have k: "k = nat (num_pages (file_hdr h2) - rid_page_no ?r')"
      using Suc(2) hd2 by simp
    from Suc(1)[OF k sc2] obtain r1 h3 where
      IH: "next_loop (file_hdr h2) h2 ?r' = (Inr r1, h3)" "scannable h3"
        "file_hdr h3 = file_hdr h2" "\<forall>q. page_of h3 q = page_of h2 q"
        "rids_after h2 ?r' = (if r1 = scan_end then [] else r1 # rids_after h2 r1)"
        "r1 \<noteq> scan_end \<longrightarrow> 1 \<le> rid_page_no r1"
      using p by auto
    have c: "rids_after h2 = rids_after h" using rids_after_cong[OF hd2 V2] by simp
    have "rids_on h ?p (?s + 1) = []" using NB False by (simp add: rids_on_def)
    then have "rids_after h r = rids_after h ?r'"
      using p by (simp add: rids_after_def upto_rec1)
    then show ?thesis using nl IH c hd2 V2 by simp
  qed
qed

lemma scan_from_end: "scan_from k h scan_end = Some (Inr ([], scan_end), h)"
  by (cases k) (simp_all add: is_end_def scan_end_def)

lemma scan_from_spec:
  assumes "scannable h" and "1 \<le> rid_page_no r"
  shows "\<exists>h'. scan_from (Suc (length (rids_after h r))) h r
              = Some (Inr (r # rids_after h r, scan_end), h')"
  using assms
proof (induction "length (rids_after h r)" arbitrary: h r)
  case 0
  from next_loop_spec[OF 0(2,3)] obtain r1 h1 where
    N: "next_loop (file_hdr h) h r = (Inr r1, h1)"
      "rids_after h r = (if r1 = scan_end then [] else r1 # rids_after h r1)"
    by blast
  with 0(1) have r1: "r1 = scan_end" "rids_after h r = []" by (auto split: if_splits)
  have "\<not> is_end r" using scan_end_not_page[OF 0(3)] by simp
  then show ?case
    using N(1) r1 by (simp add: RmScan_next_def scan_from_end)
next
  case (Suc k)
  from next_loop_spec[OF Suc(3,4)] obtain r1 h1 where
    N: "next_loop (file_hdr h) h r = (Inr r1, h1)" "scannable h1"
      "file_hdr h1 = file_hdr h" "\<forall>q. page_of h1 q = page_of h q"
      "rids_after h r = (if r1 = scan_end then [] else r1 # rids_after h r1)"
      "r1 \<noteq> scan_end \<longrightarrow> 1 \<le> rid_page_no r1"
    by blast
  with Suc(2) have r1: "r1 \<noteq> scan_end" "rids_after h r = r1 # rids_after h r1"
    by (auto split: if_splits)
  have c: "rids_after h1 = rids_after h" using rids_after_cong[OF N(3,4)] by simp
  have k: "k = length (rids_after h1 r1)" using Suc(2) r1 c by simp
  from Suc(1)[OF k N(2)] N(6) r1 obtain h' where
    IH: "scan_from (Suc (length (rids_after h1 r1))) h1 r1
           = Some (Inr (r1 # rids_after h1 r1, scan_end), h')"
    by blast
  have "\<not> is_end r" using scan_end_not_page[OF Suc(4)] by simp
  then have "scan_from (Suc (Suc (length (rids_after h1 r1)))) h r
           = Some (Inr (r # r1 # rids_after h1 r1, scan_end), h')"
    using N(1) IH by (simp add: RmScan_next_def)
  then show ?case using r1 c by simp
qed

lemma live_rids_after_first:
  "live_rids h = rids_after h \<lparr>rid_page_no = RM_FIRST_RECORD_PAGE, slot_no = -1\<rparr>"
  by (simp add: live_rids_def rids_after_def RM_FIRST_RECORD_PAGE_def upto_rec1)

lemma full_scan_live:
  assumes "scannable h"
  shows "\<exists>r0 h1 h2. RmScan_init h = (Inr r0, h1) \<and>
           scan_from (length (live_rids h)) h1 r0 = Some (Inr (live_rids h, scan_end), h2) \<and>
           (live_rids h = [] \<longrightarrow> is_end r0)"
proof -
  let ?r = "\<lparr>rid_page_no = RM_FIRST_RECORD_PAGE, slot_no = -1\<rparr>"
  have p: "1 \<le> rid_page_no ?r" by (simp add: RM_FIRST_RECORD_PAGE_def)
  from next_loop_spec[OF assms p] obtain r1 h1 where
    N: "next_loop (file_hdr h) h ?r = (Inr r1, h1)" "scannable h1"
      "file_hdr h1 = file_hdr h" "\<forall>q. page_of h1 q = page_of h q"
      "rids_after h ?r = (if r1 = scan_end then [] else r1 # rids_after h r1)"
      "r1 \<noteq> scan_end \<longrightarrow> 1 \<le> rid_page_no r1"
    by blast
  have init: "RmScan_init h = (Inr r1, h1)"
    using N(1) scan_end_not_page[OF p] by (simp add: RmScan_init_def RmScan_next_def)
  have c: "rids_after h1 = rids_after h" using rids_after_cong[OF N(3,4)] by simp
  show ?thesis
  proof (cases "r1 = scan_end")
    case True
    then have "live_rids h = []" using N(5) by (simp add: live_rids_after_first)
    then show ?thesis using init True scan_from_end[of 0 h1]
      by (simp add: is_end_def scan_end_def)
  next
    case False
    then have l: "live_rids h = r1 # rids_after h1 r1"
      using N(5) c by (simp add: live_rids_after_first)
    from scan_from_spec[OF N(2)] N(6) False obtain h2 where
      "scan_from (Suc (length (rids_after h1 r1))) h1 r1
         = Some (Inr (r1 # rids_after h1 r1, scan_end), h2)" by blast
    then show ?thesis using init l by simp
  qed
qed

lemma set_rids_on:
  "set (rids_on h p s) =
     {r. rid_page_no r = p \<and> s \<le> slot_no r \<and> slot_no r < num_records_per_page (file_hdr h) \<and>
         bitmap (page_of h p) (nat (slot_no r))}"
proof -
  have "\<And>r. r \<in> set (rids_on h p s) \<longleftrightarrow>
          rid_page_no r = p \<and> s \<le> slot_no r \<and> slot_no r < num_records_per_page (file_hdr h) \<and>
          bitmap (page_of h p) (nat (slot_no r))"
  proof -
    fix r :: Rid
    show "r \<in> set (rids_on h p s) \<longleftrightarrow>
          rid_page_no r = p \<and> s \<le> slot_no r \<and> slot_no r < num_records_per_page (file_hdr h) \<and>
          bitmap (page_of h p) (nat (slot_no r))"
      by (cases r) (auto simp: rids_on_def)
  qed
  then show ?thesis by blast
qed

lemma set_live_rids:
  "set (live_rids h) =
     {r. 1 \<le> rid_page_no r \<and> rid_page_no r < num_pages (file_hdr h) \<and>
         0 \<le> slot_no r \<and> slot_no r < num_records_per_page (file_hdr h) \<and>
         bitmap (page_of h (rid_page_no r)) (nat (slot_no r))}"
  by (auto simp: live_rids_def set_rids_on RM_FIRST_RECORD_PAGE_def)

lemma sorted_rids_on: "sorted_wrt rid_less (rids_on h p s)"
proof -
  have "sorted_wrt (<) (filter (\<lambda>i. bitmap (page_of h p) (nat i))
          [s..num_records_per_page (file_hdr h) - 1])"
    by (rule sorted_wrt_filter) simp
  then show ?thesis
    by (simp add: rids_on_def sorted_wrt_map rid_less_def)
qed

lemma sorted_concat_pages:
  assumes "sorted_wrt (<) ps"
  shows "sorted_wrt rid_less (concat (map (\<lambda>p. rids_on h p 0) ps))"
  using assms
proof (induction ps)
  case (Cons p ps)
  have "\<forall>x \<in> set (rids_on h p 0). \<forall>y \<in> set (concat (map (\<lambda>p. rids_on h p 0) ps)). rid_less x y"
    using Cons.prems by (auto simp: set_rids_on rid_less_def)
  with Cons show ?case by (simp add: sorted_wrt_append sorted_rids_on)
qed simp

lemma sorted_live_rids: "sorted_wrt rid_less (live_rids h)"
  unfolding live_rids_def by (rule sorted_concat_pages) simp

lemma sorted_rid_less_distinct: "sorted_wrt rid_less xs \<Longrightarrow> distinct xs"
  by (induction xs) (auto simp: rid_less_def)

lemma insert_record_live:
  assumes inv: "rm_inv h" and res: "insert_record h buf = (Inr rid, h')"
  shows "set (live_rids h') = insert rid (set (live_rids h))" and "rid \<notin> set (live_rids h)"
proof -
  define p where "p = (if first_free_page_no (file_hdr h) \<noteq> RM_NO_PAGE
                 then first_free_page_no (file_hdr h) else num_pages (file_hdr h))"
  define D where "D = (if first_free_page_no (file_hdr h) \<noteq> RM_NO_PAGE
                 then page_of h (first_free_page_no (file_hdr h)) else empty_data_page)"
  let ?N = "num_pages (file_hdr h)" and ?npp = "num_records_per_page (file_hdr h)"
  let ?s = "slot_no rid"
  note O = insert_record_ok[OF inv res, folded p_def D_def]
  have rp: "rid_page_no rid = p" and p0: "0 < p" and pn: "p < num_pages (file_hdr h')"
    and s: "0 \<le> ?s" "?s < ?npp" "\<not> bitmap D (nat ?s)"
    and V: "page_of h' p = (memcpy_to_slot D ?s buf (nat (record_size (file_hdr h))))
           \<lparr>bitmap := Bitmap_set (bitmap D) ?s,
            page_hdr := (page_hdr D)\<lparr>num_records := num_records (page_hdr D) + 1\<rparr>\<rparr>"
      "\<And>q. q \<noteq> p \<Longrightarrow> page_of h' q = page_of h q"
    using O by blast+
  have fh: "file_hdr h' = (file_hdr h)
           \<lparr>num_pages := (if first_free_page_no (file_hdr h) \<noteq> RM_NO_PAGE
                           then ?N else ?N + 1),
            first_free_page_no :=
              (if num_records (page_hdr D) + 1 = ?npp \<and> first_free_page_no (file_hdr h) = p
               then next_free_page_no (page_hdr D)
               else first_free_page_no (file_hdr h))\<rparr>"
    using O by blast
  have npp: "num_records_per_page (file_hdr h') = ?npp" by (simp add: fh)
  have bp: "bitmap (page_of h' p) = (bitmap D)(nat ?s := True)"
    by (simp add: V(1) Bitmap_set_def)
  have rid: "rid = \<lparr>rid_page_no = p, slot_no = ?s\<rparr>" using rp by (cases rid) simp
  have nat_eq: "\<And>t. 0 \<le> t \<Longrightarrow> (nat t = nat ?s) = (t = ?s)" using s(1) by auto
  show "rid \<notin> set (live_rids h)"
  proof (cases "first_free_page_no (file_hdr h) \<noteq> RM_NO_PAGE")
    case True
    then have "D = page_of h p" by (simp add: D_def p_def)
    with s(3) rp show ?thesis by (simp add: set_live_rids)
  next
    case False
    then have "p = ?N" by (simp add: p_def)
    with rp show ?thesis by (simp add: set_live_rids)
  qed
  show "set (live_rids h') = insert rid (set (live_rids h))"
  proof (cases "first_free_page_no (file_hdr h) \<noteq> RM_NO_PAGE")
    case True
    then have D: "D = page_of h p" and N: "num_pages (file_hdr h') = ?N"
      by (simp_all add: D_def p_def fh)
    have "\<And>r. r \<in> set (live_rids h') \<longleftrightarrow> r = rid \<or> r \<in> set (live_rids h)"
    proof -
      fix r :: Rid
      show "r \<in> set (live_rids h') \<longleftrightarrow> r = rid \<or> r \<in> set (live_rids h)"
      proof (cases "rid_page_no r = p")
        case True
        have "r = rid \<longleftrightarrow> slot_no r = ?s" using True rp by (cases r, cases rid) simp
        then show ?thesis
          using True D N pn p0 s nat_eq[of "slot_no r"]
          by (auto simp: set_live_rids npp bp)
      next
        case False
        then have "r \<noteq> rid" using rp by auto
        then show ?thesis using False V(2)[OF False] N by (simp add: set_live_rids npp)
      qed
    qed
    then show ?thesis by blast
  next
    case False
    then have D: "D = empty_data_page" and N: "num_pages (file_hdr h') = ?N + 1" and pN: "p = ?N"
      by (simp_all add: D_def p_def fh)
    have bpN: "bitmap (page_of h' ?N) = (\<lambda>_. False)(nat ?s := True)"
      using bp D pN by (simp add: empty_data_page_def)
    have "\<And>r. r \<in> set (live_rids h') \<longleftrightarrow> r = rid \<or> r \<in> set (live_rids h)"
    proof -
      fix r :: Rid
      show "r \<in> set (live_rids h') \<longleftrightarrow> r = rid \<or> r \<in> set (live_rids h)"
      proof (cases "rid_page_no r = p")
        case True
        have "r = rid \<longleftrightarrow> slot_no r = ?s" using True rp by (cases r, cases rid) simp
        then show ?thesis
          using True N pN p0 s nat_eq[of "slot_no r"]
          by (auto simp: set_live_rids npp bpN)
      next
        case False
        then have "r \<noteq> rid" using rp by auto
        then show ?thesis using False V(2)[OF False] N pN by (auto simp: set_live_rids npp)
      qed
    qed
    then show ?thesis by blast
  qed
qed

lemma insert_record_scannable:
  assumes sc: "scannable h" and res: "insert_record h buf = (Inr rid, h')"
  shows "scannable h'"
proof -
  have inv: "rm_inv h" and i: "idle h" using sc by (simp_all add: scannable_def)
  define p where "p = (if first_free_page_no (file_hdr h) \<noteq> RM_NO_PAGE
                 then first_free_page_no (file_hdr h) else num_pages (file_hdr h))"
  note O = insert_record_ok[OF inv res, folded p_def]
  have inv': "rm_inv h'" and i': "idle h'" and c: "cached h' p" using O i by blast+
  from c obtain f where "page_table (buffer_pool_manager h') \<lparr>fd = fh_fd h', page_no = p\<rparr> = Some f"
    by (auto simp: cached_def)
  then have "f < length (pages (buffer_pool_manager h'))"
    using inv' unfolding rm_inv_def rm_base_def bpm_wf_def by blast
  then have "pages (buffer_pool_manager h') \<noteq> []" by auto
  with inv' i' show ?thesis by (simp add: scannable_def)
qed

lemma insert_all_live:
  assumes "scannable h" and "insert_all h bufs = Some (rids, h')"
  shows "scannable h' \<and> set (live_rids h') = set rids \<union> set (live_rids h) \<and>
         distinct rids \<and> set rids \<inter> set (live_rids h) = {}"
  using assms
proof (induction bufs arbitrary: h rids)
  case Nil
  then show ?case by simp
next
  case (Cons buf bufs)
  from Cons.prems(2) obtain rid h1 rest where
    i: "insert_record h buf = (Inr rid, h1)" and r: "insert_all h1 bufs = Some (rest, h')"
    and rids: "rids = rid # rest"
    by (auto split: prod.splits sum.splits option.splits)
  have inv: "rm_inv h" using Cons.prems(1) by (simp add: scannable_def)
  note L = insert_record_live[OF inv i]
  note S = insert_record_scannable[OF Cons.prems(1) i]
  from Cons.IH[OF S r] have IH: "scannable h'"
    "set (live_rids h') = set rest \<union> set (live_rids h1)" "distinct rest"
    "set rest \<inter> set (live_rids h1) = {}" by simp_all
  show ?case using IH L rids by auto
qed

lemma new_file_scannable:
  assumes "num_pages hdr = 1" and "fd2pageno d f = 1"
  shows "scannable (new_file n d f hdr)" and "live_rids (new_file n d f hdr) = []"
  using new_file_inv[OF assms, of n] assms(1)
  by (simp_all add: scannable_def live_rids_def new_file_def RM_FIRST_RECORD_PAGE_def)


section \<open>Claims about the Replacer\<close>

text \<open>
  Claim C9. Started empty and driven by any sequence of \<open>victim\<close>, \<open>pin\<close> and \<open>unpin\<close>
  calls, the Replacer returns what the reference model returns: \<open>victim\<close> removes and
  returns the eligible frame whose \<open>unpin\<close> came earliest and fails exactly when no frame
  is eligible, \<open>unpin\<close> makes its frame the most recently used eligible frame and is a
  no-op on an eligible frame, \<open>pin\<close> removes its frame and is a no-op on an absent one.
  The list \<open>LRUlist_\<close> holds exactly the eligible frames, each once, ordered by the time of
  their \<open>unpin\<close> with the latest at the head, and the keys of \<open>LRUhash_\<close> are its elements.
\<close>

theorem lru_replacer_refines_spec:
  "fst (replacer_run LRUReplacer_init ops) = fst (spec_run lru_spec_init ops) \<and>
   LRUlist (snd (replacer_run LRUReplacer_init ops))
     = map fst (unpinned_at (snd (spec_run lru_spec_init ops))) \<and>
   sorted_wrt (>) (map snd (unpinned_at (snd (spec_run lru_spec_init ops)))) \<and>
   distinct (LRUlist (snd (replacer_run LRUReplacer_init ops))) \<and>
   LRUhash (snd (replacer_run LRUReplacer_init ops))
     = spec_eligible (snd (spec_run lru_spec_init ops))"
proof -
  have "fst (replacer_run LRUReplacer_init ops) = fst (spec_run lru_spec_init ops)"
    and sim: "lru_sim (snd (replacer_run LRUReplacer_init ops)) (snd (spec_run lru_spec_init ops))"
    using lru_sim_run[OF lru_sim_init, of ops] by simp_all
  moreover have "LRUhash (snd (replacer_run LRUReplacer_init ops))
     = spec_eligible (snd (spec_run lru_spec_init ops))"
    using sim by (simp add: lru_sim_def spec_eligible_def)
  ultimately show ?thesis unfolding lru_sim_def by blast
qed

section \<open>Claims about the Buffer Pool Manager\<close>

text \<open>
  Claim C8. \<open>unpin_page(page_id, is_dirty)\<close> returns false and leaves the whole state as
  it was when the page is not in the page table or the pin count of its frame is not
  positive. Otherwise it returns true, the pin count of the frame is one less, the dirty
  flag of the frame is its old value or \<open>is_dirty\<close> (so it is never cleared), the frame
  is handed to \<open>Replacer.unpin\<close> exactly when the new pin count is 0, and nothing else
  changes.
\<close>

theorem unpin_page_spec:
  "(page_table b pid = None \<longrightarrow> unpin_page b pid dirty = (False, b)) \<and>
   (\<forall>f. page_table b pid = Some f \<and> pin_count (pages b ! f) \<le> 0 \<longrightarrow>
        unpin_page b pid dirty = (False, b)) \<and>
   (\<forall>f. page_table b pid = Some f \<and> f < pool_size b \<and> 0 < pin_count (pages b ! f) \<longrightarrow>
        (case unpin_page b pid dirty of
           (ok, b') \<Rightarrow>
             ok \<and>
             pages b' = (pages b)[f := (pages b ! f)
                           \<lparr>pin_count := pin_count (pages b ! f) - 1,
                            is_dirty := is_dirty (pages b ! f) \<or> dirty\<rparr>] \<and>
             replacer b' = (if pin_count (pages b ! f) - 1 = 0
                            then unpin (replacer b) f else replacer b) \<and>
             page_table b' = page_table b \<and> free_list b' = free_list b \<and>
             disk_manager b' = disk_manager b))"
  by (auto simp: unpin_page_def pool_size_def Let_def)

theorem unpin_page_spec_witness:
  "unpin_page (BufferPoolManager_init 1 empty_disk) \<lparr>fd = 3, page_no = 1\<rparr> True
     = (False, BufferPoolManager_init 1 empty_disk) \<and>
   fst (unpin_page (snd (fetch_page (BufferPoolManager_init 1 empty_disk) \<lparr>fd = 3, page_no = 1\<rparr>))
          \<lparr>fd = 3, page_no = 1\<rparr> True) \<and>
   LRUlist (replacer (snd (unpin_page
       (snd (fetch_page (BufferPoolManager_init 1 empty_disk) \<lparr>fd = 3, page_no = 1\<rparr>))
       \<lparr>fd = 3, page_no = 1\<rparr> True))) = [0]"
  using unpin_page_spec[of "BufferPoolManager_init 1 empty_disk" "\<lparr>fd = 3, page_no = 1\<rparr>" True]
    unpin_page_spec[of "snd (fetch_page (BufferPoolManager_init 1 empty_disk) \<lparr>fd = 3, page_no = 1\<rparr>)"
      "\<lparr>fd = 3, page_no = 1\<rparr>" True]
  by (simp add: BufferPoolManager_init_def fetch_page_def find_victim_page_def update_page_def
      fresh_page_def Let_def pool_size_def INVALID_PAGE_ID_def pin_def unpin_def
      LRUReplacer_init_def split_beta)

text \<open>
  Claim C2, as stated, at a \<open>PageId\<close> whose \<open>page_no\<close> is \<open>INVALID_PAGE_ID\<close>: the page
  is not in the page table, a victim frame is obtained from the free list and returned,
  and no page-table entry for the \<open>PageId\<close> is inserted.
\<close>

theorem fetch_page_invalid_id_counterexample:
  "page_table (BufferPoolManager_init 1 empty_disk) \<lparr>fd = 0, page_no = INVALID_PAGE_ID\<rparr> = None \<and>
   fst (fetch_page (BufferPoolManager_init 1 empty_disk) \<lparr>fd = 0, page_no = INVALID_PAGE_ID\<rparr>)
     = Some 0 \<and>
   page_table (snd (fetch_page (BufferPoolManager_init 1 empty_disk)
                      \<lparr>fd = 0, page_no = INVALID_PAGE_ID\<rparr>))
     \<lparr>fd = 0, page_no = INVALID_PAGE_ID\<rparr> = None"
  by (simp add: BufferPoolManager_init_def fetch_page_def find_victim_page_def update_page_def
      fresh_page_def Let_def)

text \<open>
  Claim C2, amended: for a \<open>PageId\<close> whose \<open>page_no\<close> is not \<open>INVALID_PAGE_ID\<close>.
  If the page is in the page table, \<open>fetch_page\<close> increments the pin count of its frame,
  removes the frame from the Replacer and returns the frame. If it is not, and there is
  no free frame and no unpinned frame (the free list is empty and the Replacer, which
  holds the unpinned frames, is empty), the result is null and the state is unchanged.
  If it is not and \<open>find_victim_page\<close> gives the frame \<open>v\<close>: when the frame is bound and
  dirty its image is written back to its old page; when it is bound its old page-table
  entry is removed; the new entry is inserted; the frame holds the on-disk image of the
  page read after the write-back, is bound to the \<open>PageId\<close>, has pin count 1, is not
  dirty and is not in the Replacer. \<open>find_victim_page\<close> takes the head of the free list
  when there is one and the Replacer's victim otherwise.
\<close>

theorem fetch_page_spec:
  assumes "page_no pid \<noteq> INVALID_PAGE_ID"
  shows
  "(\<forall>f. page_table b pid = Some f \<longrightarrow>
        fetch_page b pid =
          (Some f, b\<lparr>pages := (pages b)[f := (pages b ! f)\<lparr>pin_count := pin_count (pages b ! f) + 1\<rparr>],
                     replacer := pin (replacer b) f\<rparr>)) \<and>
   (page_table b pid = None \<and> free_list b = [] \<and> LRUlist (replacer b) = [] \<longrightarrow>
        fetch_page b pid = (None, b)) \<and>
   (\<forall>v b1. page_table b pid = None \<and> find_victim_page b = (Some v, b1) \<and> v < pool_size b \<longrightarrow>
        (let old = pages b ! v;
             evict = (page_no (page_id old) \<noteq> INVALID_PAGE_ID);
             d = (if evict \<and> is_dirty old
                  then write_page (disk_manager b) (page_id old) (data old)
                  else disk_manager b)
         in fetch_page b pid =
              (Some v,
               \<lparr>pages = (pages b)[v := \<lparr>page_id = pid, data = read_page d pid,
                                        is_dirty = False, pin_count = 1\<rparr>],
                page_table = (if evict then (page_table b)(page_id old := None)
                              else page_table b)(pid \<mapsto> v),
                free_list = free_list b1,
                replacer = pin (replacer b1) v,
                disk_manager = d\<rparr>))) \<and>
   find_victim_page b =
     (if free_list b \<noteq> [] then (Some (hd (free_list b)), b\<lparr>free_list := tl (free_list b)\<rparr>)
      else if LRUlist (replacer b) \<noteq> []
      then (Some (last (LRUlist (replacer b))), b\<lparr>replacer := snd (victim (replacer b))\<rparr>)
      else (None, b))"
proof -
  have hit: "\<forall>f. page_table b pid = Some f \<longrightarrow>
        fetch_page b pid =
          (Some f, b\<lparr>pages := (pages b)[f := (pages b ! f)\<lparr>pin_count := pin_count (pages b ! f) + 1\<rparr>],
                     replacer := pin (replacer b) f\<rparr>)"
    by (simp add: fetch_page_def set_page_def)
  have none: "page_table b pid = None \<and> free_list b = [] \<and> LRUlist (replacer b) = [] \<longrightarrow>
        fetch_page b pid = (None, b)"
    by (simp add: fetch_page_def find_victim_page_def victim_def)
  have fv: "find_victim_page b =
     (if free_list b \<noteq> [] then (Some (hd (free_list b)), b\<lparr>free_list := tl (free_list b)\<rparr>)
      else if LRUlist (replacer b) \<noteq> []
      then (Some (last (LRUlist (replacer b))), b\<lparr>replacer := snd (victim (replacer b))\<rparr>)
      else (None, b))"
    by (simp add: find_victim_page_def victim_def Let_def)
  have miss: "\<forall>v b1. page_table b pid = None \<and> find_victim_page b = (Some v, b1) \<and> v < pool_size b \<longrightarrow>
        (let old = pages b ! v;
             evict = (page_no (page_id old) \<noteq> INVALID_PAGE_ID);
             d = (if evict \<and> is_dirty old
                  then write_page (disk_manager b) (page_id old) (data old)
                  else disk_manager b)
         in fetch_page b pid =
              (Some v,
               \<lparr>pages = (pages b)[v := \<lparr>page_id = pid, data = read_page d pid,
                                        is_dirty = False, pin_count = 1\<rparr>],
                page_table = (if evict then (page_table b)(page_id old := None)
                              else page_table b)(pid \<mapsto> v),
                free_list = free_list b1,
                replacer = pin (replacer b1) v,
                disk_manager = d\<rparr>))"
  proof (intro allI impI)
    fix v b1
    assume a: "page_table b pid = None \<and> find_victim_page b = (Some v, b1) \<and> v < pool_size b"
    then have b1: "pages b1 = pages b" "page_table b1 = page_table b" "disk_manager b1 = disk_manager b"
      by (auto simp: find_victim_page_def split: if_splits prod.splits option.splits)
    show "(let old = pages b ! v;
             evict = (page_no (page_id old) \<noteq> INVALID_PAGE_ID);
             d = (if evict \<and> is_dirty old
                  then write_page (disk_manager b) (page_id old) (data old)
                  else disk_manager b)
         in fetch_page b pid =
              (Some v,
               \<lparr>pages = (pages b)[v := \<lparr>page_id = pid, data = read_page d pid,
                                        is_dirty = False, pin_count = 1\<rparr>],
                page_table = (if evict then (page_table b)(page_id old := None)
                              else page_table b)(pid \<mapsto> v),
                free_list = free_list b1,
                replacer = pin (replacer b1) v,
                disk_manager = d\<rparr>))"
      using a b1 assms
      by (auto simp: fetch_page_def update_page_def Let_def pool_size_def set_page_def
          Page_update_all intro!: BufferPoolManager.equality)
  qed
  from hit none miss fv show ?thesis by blast
qed

theorem fetch_page_spec_witness:
  "fetch_page (BufferPoolManager_init 1 empty_disk) \<lparr>fd = 3, page_no = 1\<rparr>
     = (Some 0,
        \<lparr>pages = [\<lparr>page_id = \<lparr>fd = 3, page_no = 1\<rparr>, data = zero_page,
                    is_dirty = False, pin_count = 1\<rparr>],
         page_table = [\<lparr>fd = 3, page_no = 1\<rparr> \<mapsto> 0],
         free_list = [],
         replacer = LRUReplacer_init,
         disk_manager = empty_disk\<rparr>)"
proof -
  have "page_no \<lparr>fd = 3, page_no = 1\<rparr> \<noteq> INVALID_PAGE_ID"
    by (simp add: INVALID_PAGE_ID_def)
  from fetch_page_spec[OF this, of "BufferPoolManager_init 1 empty_disk"]
  show ?thesis
    by (simp add: BufferPoolManager_init_def fresh_page_def pool_size_def read_page_def
        empty_disk_def pin_def LRUReplacer_init_def Let_def)
qed

text \<open>
  Claim C1, at the failure exit of \<open>new_page\<close>: on a fresh pool of one frame over a disk
  whose allocation fails, \<open>new_page\<close> takes frame 0 from the free list, gets
  \<open>INVALID_PAGE_ID\<close> from \<open>allocate_page\<close> and returns null; afterwards frame 0 is
  neither on the free list nor in the page table.
\<close>

theorem new_page_alloc_failure_leaks_frame:
  "fst (new_page (BufferPoolManager_init 1 full_disk) 0) = None \<and>
   0 < pool_size (snd (new_page (BufferPoolManager_init 1 full_disk) 0)) \<and>
   0 \<notin> set (free_list (snd (new_page (BufferPoolManager_init 1 full_disk) 0))) \<and>
   0 \<notin> ran (page_table (snd (new_page (BufferPoolManager_init 1 full_disk) 0)))"
  by (simp add: pool_size_def BufferPoolManager_init_def full_disk_def empty_disk_def
      new_page_def find_victim_page_def allocate_page_def)

section \<open>Claims about the Record File Handle\<close>

text \<open>
  Claim C3. On a well-formed file, when \<open>insert_record(buf)\<close> for a buffer of
  \<open>record_size\<close> bytes returns the Rid \<open>rid\<close>, the \<open>get_record(rid)\<close> that follows
  returns a record whose bytes are those of \<open>buf\<close>.
\<close>

theorem insert_get_round_trip:
  assumes inv: "rm_inv h" and len: "length buf = nat (record_size (file_hdr h))"
    and ins: "insert_record h buf = (Inr rid, h1)"
  shows "fst (get_record h1 rid) = Inr buf"
proof -
  define D where "D = (if first_free_page_no (file_hdr h) \<noteq> RM_NO_PAGE
                 then page_of h (first_free_page_no (file_hdr h)) else empty_data_page)"
  let ?p = "rid_page_no rid" and ?s = "slot_no rid"
  let ?n = "nat (record_size (file_hdr h))"
  note I = insert_record_ok[OF inv ins, folded D_def]
  have inv1: "rm_inv h1" and p: "0 < ?p" and c: "cached h1 ?p"
    and s: "0 \<le> ?s" "?s < num_records_per_page (file_hdr h)"
    and V: "page_of h1 ?p = (memcpy_to_slot D ?s buf ?n)
           \<lparr>bitmap := Bitmap_set (bitmap D) ?s,
            page_hdr := (page_hdr D)\<lparr>num_records := num_records (page_hdr D) + 1\<rparr>\<rparr>"
    and hd: "num_records_per_page (file_hdr h1) = num_records_per_page (file_hdr h)"
      "record_size (file_hdr h1) = record_size (file_hdr h)"
    using I by simp_all
  from fetch_page_handle_cached[OF inv1 c p] obtain f h2
    where f: "fetch_page_handle h1 ?p = (Inr f, h2)" by blast
  note F = fetch_page_handle_props[OF inv1 f]
  have ho: "holding h2 f ?p" and hd2: "file_hdr h2 = file_hdr h1"
    and V2: "page_of h2 ?p = page_of h1 ?p"
    using F by simp_all
  have fdat: "frame_data h2 f = page_of h1 ?p" using holding_frame(1)[OF ho] V2 by simp
  have "fst (get_record h1 rid) = Inr (memcpy_from_slot (page_of h1 ?p) ?s ?n)"
    using f s hd hd2 fdat V by (simp add: get_record_def Bitmap_is_set_def Bitmap_set_def)
  then show ?thesis using V memcpy_round_trip[OF len] by simp
qed

theorem insert_get_round_trip_witness:
  "fst (get_record (snd (insert_record example_file [1, 2])) \<lparr>rid_page_no = 1, slot_no = 0\<rparr>)
     = Inr [1, 2]"
proof -
  have l: "length [1, 2 :: byte] = nat (record_size (file_hdr example_file))"
    by (simp add: example_file_def new_file_def new_file_hdr_def)
  have r: "insert_record example_file [1, 2]
             = (Inr \<lparr>rid_page_no = 1, slot_no = 0\<rparr>, snd (insert_record example_file [1, 2]))"
    by (simp add: prod_eq_iff eval_defs)
  from insert_get_round_trip[OF example_file_inv(1) l r] show ?thesis .
qed

text \<open>
  Claim C5. On a well-formed file in which the header of every data page counts the bits
  of the page's bitmap below \<open>num_records_per_page\<close>, each of \<open>insert_record(buf)\<close>, the
  positional \<open>insert_record(rid, buf)\<close>, \<open>delete_record\<close> and \<open>update_record\<close>, whether it
  returns or throws, leaves a well-formed file in which that holds again for every data
  page; a new file is such a file.
\<close>

theorem num_records_is_popcount:
  assumes "rm_inv h" and "counts_ok h"
  shows "rm_inv (rm_exec h x) \<and>
         (\<forall>p. RM_FIRST_RECORD_PAGE \<le> p \<and> p < num_pages (file_hdr (rm_exec h x)) \<longrightarrow>
            num_records (page_hdr (page_of (rm_exec h x) p))
              = popcount (bitmap (page_of (rm_exec h x) p))
                  (num_records_per_page (file_hdr (rm_exec h x))))"
proof -
  have "rm_inv (rm_exec h x) \<and> counts_ok (rm_exec h x)"
    using insert_record_counts[OF assms] insert_record_at_counts[OF assms]
      delete_record_counts[OF assms] update_record_counts[OF assms]
    by (cases x) simp_all
  then show ?thesis by (simp add: counts_ok_def count_ok_def)
qed

theorem num_records_is_popcount_witness:
  "num_records (page_hdr (page_of (rm_exec example_file (Insert [1, 2])) 1))
     = popcount (bitmap (page_of (rm_exec example_file (Insert [1, 2])) 1)) 4"
proof -
  have "RM_FIRST_RECORD_PAGE \<le> 1 \<and> 1 < num_pages (file_hdr (rm_exec example_file (Insert [1, 2])))"
    by (simp add: eval_defs)
  moreover have "num_records_per_page (file_hdr (rm_exec example_file (Insert [1, 2]))) = 4"
    by (simp add: eval_defs)
  ultimately show ?thesis
    using num_records_is_popcount[OF example_file_inv(1,2), of "Insert [1, 2]"] by metis
qed

text \<open>
  Claim C6. On a well-formed file, a \<open>delete_record(rid)\<close> that returns, on a page that
  was full, clears the slot's bit and decrements \<open>num_records\<close>, sets the page's
  \<open>next_free_page_no\<close> to the previous \<open>first_free_page_no\<close> and \<open>first_free_page_no\<close> to
  the page's number, and leaves the page cached in a dirty frame; the slots of the page,
  the other pages and the rest of the file header are as before.
\<close>

theorem delete_record_releases_full_page:
  assumes inv: "rm_inv h" and del: "delete_record h rid = (Inr u, h')"
    and full: "num_records (page_hdr (page_of h (rid_page_no rid)))
                 = num_records_per_page (file_hdr h)"
  shows "first_free_page_no (file_hdr h') = rid_page_no rid \<and>
         next_free_page_no (page_hdr (page_of h' (rid_page_no rid)))
           = first_free_page_no (file_hdr h) \<and>
         num_records (page_hdr (page_of h' (rid_page_no rid)))
           = num_records_per_page (file_hdr h) - 1 \<and>
         bitmap (page_of h' (rid_page_no rid))
           = (bitmap (page_of h (rid_page_no rid)))(nat (slot_no rid) := False) \<and>
         slots (page_of h' (rid_page_no rid)) = slots (page_of h (rid_page_no rid)) \<and>
         page_dirty h' (rid_page_no rid) \<and>
         file_hdr h' = (file_hdr h)\<lparr>first_free_page_no := rid_page_no rid\<rparr> \<and>
         (\<forall>q. q \<noteq> rid_page_no rid \<longrightarrow> page_of h' q = page_of h q)"
  using delete_record_ok[OF inv del] full by (simp add: Bitmap_reset_def)

theorem delete_record_releases_full_page_witness:
  "first_free_page_no (file_hdr (snd (delete_record (snd (insert_record example_file1 [1, 2]))
                                   \<lparr>rid_page_no = 1, slot_no = 0\<rparr>))) = 1 \<and>
   next_free_page_no (page_hdr (page_of (snd (delete_record (snd (insert_record example_file1 [1, 2]))
                                   \<lparr>rid_page_no = 1, slot_no = 0\<rparr>)) 1)) = RM_NO_PAGE"
proof -
  let ?h = "snd (insert_record example_file1 [1, 2])"
  let ?rid = "\<lparr>rid_page_no = 1, slot_no = 0\<rparr>"
  have inv: "rm_inv ?h"
    using insert_record_counts[OF example_file1_inv(1,2)] by simp
  have del: "delete_record ?h ?rid = (Inr (), snd (delete_record ?h ?rid))"
    by (simp add: prod_eq_iff eval_defs example_file1_def)
  have full: "num_records (page_hdr (page_of ?h (rid_page_no ?rid)))
                 = num_records_per_page (file_hdr ?h)"
    by (simp add: eval_defs example_file1_def page_of_def view_def)
  have "first_free_page_no (file_hdr ?h) = RM_NO_PAGE"
    by (simp add: eval_defs example_file1_def)
  then show ?thesis
    using delete_record_releases_full_page[OF inv del full] by simp
qed


text \<open>
  Claim C7, at a file whose free-page list has a full page at its head. In
  \<open>full_head_file\<close> page 1 is the head of the list and both of its slots are taken;
  \<open>create_page_handle\<close> returns the frame of that page without looking at its capacity,
  \<open>first_bit\<close> finds no unset bit in it, and \<open>insert_record\<close> throws.
\<close>

theorem create_page_handle_returns_full_page:
  "first_free_page_no (file_hdr full_head_file) = 1 \<and>
   num_records_per_page (file_hdr full_head_file) = 2 \<and>
   fst (create_page_handle full_head_file) = Inr 0 \<and>
   frame_page_id (snd (create_page_handle full_head_file)) 0 = \<lparr>fd = 3, page_no = 1\<rparr> \<and>
   num_records (page_hdr (frame_data (snd (create_page_handle full_head_file)) 0)) = 2 \<and>
   first_bit False (bitmap (frame_data (snd (create_page_handle full_head_file)) 0)) 2 = 2 \<and>
   fst (insert_record full_head_file [7, 8])
     = Inl (RMDBError ''Failed to find a free slot in a supposedly free page.'')"
  by (simp add: full_head_file_def example_file2_def eval_defs)

text \<open>
  Claim C4. Take a new file (header page only, allocation counter at 1) over a fresh pool
  and any sequence of \<open>insert_record(buf)\<close> calls on it that all return, with no other
  operation. The construction of a scan on the result returns a cursor, and from it
  reading \<open>rid()\<close> and calling \<open>next()\<close> reaches the end state within as many calls as
  there were inserts, with the cursor at \<open>(RM_NO_PAGE, -1)\<close>. The Rids read are exactly
  the Rids the inserts returned, each read once and each returned once, in strictly
  increasing \<open>(page_no, slot_no)\<close> order; with no insert the cursor starts in the end
  state.
\<close>

theorem scan_visits_inserted_rids:
  assumes "num_pages hdr = 1" and "fd2pageno d f = 1"
    and "insert_all (new_file n d f hdr) bufs = Some (rids, h)"
  shows "\<exists>xs r0 h1 h2.
           RmScan_init h = (Inr r0, h1) \<and>
           scan_from (length rids) h1 r0
             = Some (Inr (xs, \<lparr>rid_page_no = RM_NO_PAGE, slot_no = -1\<rparr>), h2) \<and>
           set xs = set rids \<and> distinct xs \<and> distinct rids \<and>
           sorted_wrt rid_less xs \<and> (rids = [] \<longrightarrow> is_end r0)"
proof -
  note A = insert_all_live[OF new_file_scannable(1)[OF assms(1,2)] assms(3)]
  have sc: "scannable h" and st: "set (live_rids h) = set rids" and d: "distinct rids"
    using A new_file_scannable(2)[OF assms(1,2), of n] by simp_all
  have dl: "distinct (live_rids h)" by (rule sorted_rid_less_distinct[OF sorted_live_rids])
  have len: "length (live_rids h) = length rids"
    using distinct_card[OF dl] distinct_card[OF d] st by simp
  from full_scan_live[OF sc] obtain r0 h1 h2 where
    "RmScan_init h = (Inr r0, h1)"
    "scan_from (length (live_rids h)) h1 r0 = Some (Inr (live_rids h, scan_end), h2)"
    "live_rids h = [] \<longrightarrow> is_end r0" by blast
  then show ?thesis
    using st d dl len sorted_live_rids[of h] by (auto simp: scan_end_def)
qed

theorem scan_visits_inserted_rids_witness:
  "\<exists>xs r0 h1 h2.
     RmScan_init (snd (the (insert_all example_file [[1, 2], [3, 4]]))) = (Inr r0, h1) \<and>
     scan_from 2 h1 r0 = Some (Inr (xs, \<lparr>rid_page_no = RM_NO_PAGE, slot_no = -1\<rparr>), h2) \<and>
     set xs = {\<lparr>rid_page_no = 1, slot_no = 0\<rparr>, \<lparr>rid_page_no = 2, slot_no = 0\<rparr>} \<and>
     sorted_wrt rid_less xs"
proof -
  have e: "insert_all example_file [[1, 2], [3, 4]]
             = Some ([\<lparr>rid_page_no = 1, slot_no = 0\<rparr>, \<lparr>rid_page_no = 2, slot_no = 0\<rparr>],
                     snd (the (insert_all example_file [[1, 2], [3, 4]])))"
    by (simp add: eval_defs)
  have a: "num_pages (new_file_hdr 2 4 1) = 1" "fd2pageno empty_disk 3 = 1"
    by (simp_all add: new_file_hdr_def empty_disk_def)
  have l: "length [\<lparr>rid_page_no = 1, slot_no = 0\<rparr>, \<lparr>rid_page_no = 2, slot_no = 0\<rparr>] = 2"
    and st: "set [\<lparr>rid_page_no = 1, slot_no = 0\<rparr>, \<lparr>rid_page_no = 2, slot_no = 0\<rparr>]
               = {\<lparr>rid_page_no = 1, slot_no = 0\<rparr>, \<lparr>rid_page_no = 2, slot_no = 0\<rparr>}"
    by simp_all
  from scan_visits_inserted_rids[OF a e[unfolded example_file_def],
      folded example_file_def, unfolded l st]
  show ?thesis by blast
qed

text \<open>
  Claim C10. On a well-formed file, for every Rid and buffer, a second positional
  \<open>insert_record(rid, buf)\<close> right after the first leaves the file as the first left it:
  the file header and the content of every page (slot bytes, bitmap, \<open>num_records\<close>,
  \<open>next_free_page_no\<close>) are the same; and when the first call returns, so does the
  second.
\<close>

theorem positional_insert_idempotent:
  assumes inv: "rm_inv h"
  shows "file_hdr (snd (insert_record_at (snd (insert_record_at h rid buf)) rid buf))
           = file_hdr (snd (insert_record_at h rid buf)) \<and>
         (\<forall>q. page_of (snd (insert_record_at (snd (insert_record_at h rid buf)) rid buf)) q
                = page_of (snd (insert_record_at h rid buf)) q) \<and>
         (fst (insert_record_at h rid buf) = Inr () \<longrightarrow>
            fst (insert_record_at (snd (insert_record_at h rid buf)) rid buf) = Inr ())"
proof (cases "insert_record_at h rid buf")
  case (Pair r1 h1)
  obtain r2 h2 where second: "insert_record_at h1 rid buf = (r2, h2)"
    by (cases "insert_record_at h1 rid buf")
  let ?p = "rid_page_no rid" and ?s = "slot_no rid"
  have inv1: "rm_inv h1"
    using insert_record_at_err[OF inv, of rid buf _ h1] insert_record_at_ok[OF inv, of rid buf _ h1]
      Pair by (cases r1) auto
  have same: "file_hdr h2 = file_hdr h1 \<and> (\<forall>q. page_of h2 q = page_of h1 q)"
  proof (cases r2)
    case (Inl e)
    from insert_record_at_err[OF inv1 second[unfolded Inl]] show ?thesis by simp
  next
    case (Inr u2)
    note O2 = insert_record_at_ok[OF inv1 second[unfolded Inr]]
    show ?thesis
    proof (cases r1)
      case (Inl e)
      from insert_record_at_err[OF inv Pair[unfolded Inl]]
      have hd: "file_hdr h1 = file_hdr h"
        and "h1 = h \<or> slot_no rid < 0 \<or> num_records_per_page (file_hdr h) \<le> slot_no rid"
        by simp_all
      from this(2) have False
      proof
        assume "h1 = h"
        with Pair second Inl Inr show False by simp
      next
        assume "slot_no rid < 0 \<or> num_records_per_page (file_hdr h) \<le> slot_no rid"
        with O2 hd show False by auto
      qed
      then show ?thesis ..
    next
      case (Inr u1)
      note O1 = insert_record_at_ok[OF inv Pair[unfolded Inr]]
      let ?D = "page_of h ?p"
      let ?D1 = "page_of h1 ?p"
      have b1: "Bitmap_is_set (bitmap ?D1) ?s"
        using O1 by (simp add: Bitmap_is_set_def Bitmap_set_def)
      have rs: "record_size (file_hdr h1) = record_size (file_hdr h)" using O1 by simp
      have "page_of h2 ?p = ?D1"
        using O2 O1 b1
        by (simp add: memcpy_to_slot_def Bitmap_set_def Bitmap_is_set_def fun_eq_iff)
      moreover have "\<forall>q. q \<noteq> ?p \<longrightarrow> page_of h2 q = page_of h1 q" using O2 by simp
      ultimately show ?thesis using O2 by (metis (full_types))
    qed
  qed
  have succ: "r1 = Inr () \<longrightarrow> r2 = Inr ()"
  proof
    assume "r1 = Inr ()"
    note O1 = insert_record_at_ok[OF inv Pair[unfolded this]]
    from fetch_page_handle_cached[OF inv1, of ?p] O1 obtain f h3
      where f: "fetch_page_handle h1 ?p = (Inr f, h3)" by auto
    have "file_hdr h3 = file_hdr h" using fetch_page_handle_props[OF inv1 f] O1 by simp
    then show "r2 = Inr ()"
      using second f O1 by (simp add: insert_record_at_def Let_def)
  qed
  from same succ Pair second show ?thesis by simp
qed

theorem positional_insert_idempotent_witness:
  "fst (insert_record_at
          (snd (insert_record_at (snd (insert_record example_file [1, 2]))
                  \<lparr>rid_page_no = 1, slot_no = 2\<rparr> [3, 4]))
          \<lparr>rid_page_no = 1, slot_no = 2\<rparr> [3, 4]) = Inr () \<and>
   file_hdr (snd (insert_record_at
          (snd (insert_record_at (snd (insert_record example_file [1, 2]))
                  \<lparr>rid_page_no = 1, slot_no = 2\<rparr> [3, 4]))
          \<lparr>rid_page_no = 1, slot_no = 2\<rparr> [3, 4]))
     = file_hdr (snd (insert_record_at (snd (insert_record example_file [1, 2]))
                  \<lparr>rid_page_no = 1, slot_no = 2\<rparr> [3, 4]))"
proof -
  let ?h = "snd (insert_record example_file [1, 2])"
  have inv: "rm_inv ?h"
    using insert_record_counts[OF example_file_inv(1,2)] by simp
  have "fst (insert_record_at ?h \<lparr>rid_page_no = 1, slot_no = 2\<rparr> [3, 4]) = Inr ()"
    by (simp add: eval_defs)
  then show ?thesis
    using positional_insert_idempotent[OF inv, of "\<lparr>rid_page_no = 1, slot_no = 2\<rparr>" "[3, 4]"]
    by simp
qed

end
